theory Spec2Isabelle
  imports Complex_Main
begin

section \<open>Values, errors and observable events\<close>

text \<open>
  The program (\<^verbatim>\<open>app_for_201407.py\<close>) is a Streamlit script that stores answers in a remote
  spreadsheet through the gspread client. Exceptions are values of type \<open>error\<close>: the only
  distinction the program makes is between gspread's \<^verbatim>\<open>APIError\<close> (retried by
  \<^verbatim>\<open>with_retry\<close>) and every other exception.
\<close>

datatype error = APIError string | OtherError string

text \<open>
  The dynamically typed values that flow through \<^verbatim>\<open>with_retry\<close> and the session state:
  \<^verbatim>\<open>None\<close>, an integer, a string, and a gspread \<^verbatim>\<open>Cell(row, col, value)\<close>.
\<close>

datatype pyval = PNone | PInt nat | PStr string | PCell nat nat string

fun truthy :: "pyval \<Rightarrow> bool" where
  "truthy PNone = False"
| "truthy (PInt n) = (n \<noteq> 0)"
| "truthy (PStr s) = (s \<noteq> [])"
| "truthy (PCell r c v) = True"

text \<open>Requests sent to the spreadsheet service, as a test double would record them.\<close>

datatype request =
    Find string
  | GetCell nat nat
  | UpdateCell nat nat string
  | RowValues nat
  | AppendRow "string list"
  | QuestionAppendRow "string list"

text \<open>
  Python's \<^verbatim>\<open>float\<close>: an IEEE 754 binary64 value, here a rational number that is a
  double, an infinity or a NaN. The sign of a zero is not modelled: the only float product
  of the program has a second factor of at least \<open>1/2\<close> and a first factor that is an
  integer, so it is never a negative zero.
\<close>

datatype pyfloat = Finite rat | PlusInf | MinusInf | NaN

text \<open>
  The messages the script shows. The texts are Japanese literals in the source; each
  constructor stands for one literal and carries the values interpolated into it.
\<close>

datatype notice =
    Retrying pyfloat nat nat
  | Sent
  | SendFailed error
  | QuestionSent
  | QuestionFailed error
  | ConfirmPrompt
  | Overwritten
  | OverwriteFailed error
  | Cancelled
  | NeedUsername
  | NeedNameAndQuestion

datatype event =
    Request request
  | Warning notice
  | Success notice
  | Error notice
  | Info notice
  | Written pyval
  | Sleep rat
  | Rerun

section \<open>The state of the world\<close>

text \<open>\<^verbatim>\<open>st.session_state\<close>, initialised in lines 55-60 of the source.\<close>

record session =
  ss_confirm_overwrite :: bool
  ss_row_number :: pyval
  ss_col_number :: pyval
  ss_answer :: pyval
  ss_existing_answer :: pyval

definition initial_session :: session where
  "initial_session =
     \<lparr>ss_confirm_overwrite = False, ss_row_number = PNone, ss_col_number = PNone,
      ss_answer = PNone, ss_existing_answer = PNone\<rparr>"

record datetime =
  year :: nat
  month :: nat
  day :: nat
  hour :: nat
  minute :: nat
  second :: nat

text \<open>
  Everything the script reads or changes. \<open>sheet\<close> is \<^verbatim>\<open>workbook.sheet1\<close> and
  \<open>question_sheet\<close> the worksheet of questions, each a list of rows of cell values
  (the empty string is an empty cell). \<open>faults\<close> is the outcome scheduled for each
  coming request to the service (\<open>None\<close>: the request is served), \<open>randoms\<close> the coming
  results of \<^verbatim>\<open>random.random()\<close>, \<open>wall_clock\<close> the local time in a named time zone,
  and \<open>trace\<close> the requests, messages and sleeps so far, oldest first.
\<close>

record world =
  sheet :: "string list list"
  question_sheet :: "string list list"
  faults :: "error option list"
  randoms :: "nat list"
  wall_clock :: "string \<Rightarrow> datetime"
  session :: session
  trace :: "event list"

definition emit :: "event \<Rightarrow> world \<Rightarrow> world" where
  "emit ev w = w\<lparr>trace := trace w @ [ev]\<rparr>"

definition st_warning :: "notice \<Rightarrow> world \<Rightarrow> world" where
  "st_warning n w = emit (Warning n) w"

definition st_success :: "notice \<Rightarrow> world \<Rightarrow> world" where
  "st_success n w = emit (Success n) w"

definition st_error :: "notice \<Rightarrow> world \<Rightarrow> world" where
  "st_error n w = emit (Error n) w"



definition st_rerun :: "world \<Rightarrow> world" where
  "st_rerun w = emit Rerun w"

definition time_sleep :: "rat \<Rightarrow> world \<Rightarrow> world" where
  "time_sleep d w = emit (Sleep d) w"

text \<open>
  \<^verbatim>\<open>random.random()\<close> returns \<open>n / 2^53\<close> for an integer \<open>0 \<le> n < 2^53\<close>; the
  schedule holds the coming values of \<open>n\<close> (0 once it is used up).
\<close>

definition random_random :: "world \<Rightarrow> rat \<times> world" where
  "random_random w =
     (case randoms w of
        [] \<Rightarrow> (0, w)
      | n # ns \<Rightarrow> (of_nat (n mod 2 ^ 53) / 2 ^ 53, w\<lparr>randoms := ns\<rparr>))"

section \<open>The spreadsheet service\<close>

text \<open>
  The gspread worksheet is not part of the repository. It is modelled here as far as the
  script uses it: rows and columns are numbered from 1, a cell outside the stored rows
  reads as empty, \<^verbatim>\<open>find\<close> returns the first cell in row-major order whose value
  equals the query, \<^verbatim>\<open>row_values\<close> drops trailing empty cells, \<^verbatim>\<open>append_row\<close>
  adds a row after the last one. Every request first takes its scheduled outcome; a
  request that fails has no effect on the sheet.
\<close>

fun find_in_row :: "string \<Rightarrow> string list \<Rightarrow> nat \<Rightarrow> nat option" where
  "find_in_row q [] c = None"
| "find_in_row q (x # xs) c = (if x = q then Some c else find_in_row q xs (Suc c))"

fun find_in_rows :: "string \<Rightarrow> string list list \<Rightarrow> nat \<Rightarrow> pyval" where
  "find_in_rows q [] r = PNone"
| "find_in_rows q (row # rest) r =
     (case find_in_row q row 1 of
        Some c \<Rightarrow> PCell r c q
      | None \<Rightarrow> find_in_rows q rest (Suc r))"

definition find_cell :: "string \<Rightarrow> string list list \<Rightarrow> pyval" where
  "find_cell q rows = find_in_rows q rows 1"

definition cell_value :: "string list list \<Rightarrow> nat \<Rightarrow> nat \<Rightarrow> string" where
  "cell_value rows r c =
     (if 1 \<le> r \<and> r \<le> length rows \<and> 1 \<le> c \<and> c \<le> length (rows ! (r - 1))
      then rows ! (r - 1) ! (c - 1) else [])"

definition pad :: "'a \<Rightarrow> nat \<Rightarrow> 'a list \<Rightarrow> 'a list" where
  "pad d n xs = xs @ replicate (n - length xs) d"

definition set_cell :: "string list list \<Rightarrow> nat \<Rightarrow> nat \<Rightarrow> string \<Rightarrow> string list list" where
  "set_cell rows r c v =
     (let rows' = pad [] r rows;
          row' = pad [] c (rows' ! (r - 1))
      in rows'[r - 1 := row'[c - 1 := v]])"

definition trim_row :: "string list \<Rightarrow> string list" where
  "trim_row xs = rev (dropWhile (\<lambda>s. s = []) (rev xs))"

definition row_values :: "string list list \<Rightarrow> nat \<Rightarrow> string list" where
  "row_values rows r =
     (if 1 \<le> r \<and> r \<le> length rows then trim_row (rows ! (r - 1)) else [])"

definition api_call :: "request \<Rightarrow> world \<Rightarrow> error option \<times> world" where
  "api_call rq w =
     (case faults w of
        [] \<Rightarrow> (None, emit (Request rq) w)
      | f # fs \<Rightarrow> (f, emit (Request rq) (w\<lparr>faults := fs\<rparr>)))"

definition sheet_find :: "string \<Rightarrow> world \<Rightarrow> (error + pyval) \<times> world" where
  "sheet_find query w =
     (case api_call (Find query) w of
        (Some e, w') \<Rightarrow> (Inl e, w')
      | (None, w') \<Rightarrow> (Inr (find_cell query (sheet w')), w'))"

definition sheet_cell :: "nat \<Rightarrow> nat \<Rightarrow> world \<Rightarrow> (error + pyval) \<times> world" where
  "sheet_cell row col w =
     (if row = 0 \<or> col = 0 then (Inl (OtherError ''IncorrectCellLabel''), w)
      else case api_call (GetCell row col) w of
        (Some e, w') \<Rightarrow> (Inl e, w')
      | (None, w') \<Rightarrow> (Inr (PCell row col (cell_value (sheet w') row col)), w'))"

definition sheet_update_cell :: "nat \<Rightarrow> nat \<Rightarrow> string \<Rightarrow> world \<Rightarrow> (error + pyval) \<times> world" where
  "sheet_update_cell row col v w =
     (if row = 0 \<or> col = 0 then (Inl (OtherError ''IncorrectCellLabel''), w)
      else case api_call (UpdateCell row col v) w of
        (Some e, w') \<Rightarrow> (Inl e, w')
      | (None, w') \<Rightarrow> (Inr PNone, w'\<lparr>sheet := set_cell (sheet w') row col v\<rparr>))"

definition sheet_row_values :: "nat \<Rightarrow> world \<Rightarrow> (error + string list) \<times> world" where
  "sheet_row_values row w =
     (if row = 0 then (Inl (OtherError ''IncorrectCellLabel''), w)
      else case api_call (RowValues row) w of
        (Some e, w') \<Rightarrow> (Inl e, w')
      | (None, w') \<Rightarrow> (Inr (row_values (sheet w') row), w'))"

definition sheet_append_row :: "string list \<Rightarrow> world \<Rightarrow> (error + pyval) \<times> world" where
  "sheet_append_row vals w =
     (case api_call (AppendRow vals) w of
        (Some e, w') \<Rightarrow> (Inl e, w')
      | (None, w') \<Rightarrow> (Inr PNone, w'\<lparr>sheet := sheet w' @ [vals]\<rparr>))"


section \<open>Floating-point arithmetic\<close>

text \<open>
  Rounding to the nearest double, ties to even. A double is an integer multiple of its
  quantum \<open>2 ^ q / 2 ^ 1074\<close> with a multiplier below \<open>2 ^ 53\<close> in absolute value;
  \<open>q = 0\<close> for the subnormal numbers and the first binade of normal ones. A result of
  magnitude \<open>2 ^ 1024\<close> or more overflows to an infinity.
\<close>

fun bit_length :: "nat \<Rightarrow> nat" where
  "bit_length n = (if n = 0 then 0 else Suc (bit_length (n div 2)))"

declare bit_length.simps [simp del]

definition round_half_even :: "rat \<Rightarrow> int" where
  "round_half_even x =
     (let f = \<lfloor>x\<rfloor>; d = x - of_int f
      in if d < 1 / 2 then f else if 1 / 2 < d then f + 1 else if even f then f else f + 1)"

definition double_quantum :: "rat \<Rightarrow> nat" where
  "double_quantum x = bit_length (nat \<lfloor>\<bar>x\<bar> * 2 ^ 1074\<rfloor>) - 53"

definition round_to_double :: "rat \<Rightarrow> rat" where
  "round_to_double x =
     of_int (round_half_even (x * 2 ^ 1074 / 2 ^ double_quantum x)) * 2 ^ double_quantum x
       / 2 ^ 1074"

definition round_double :: "rat \<Rightarrow> pyfloat" where
  "round_double x =
     (let y = round_to_double x
      in if 2 ^ 1024 \<le> y then PlusInf else if y \<le> - (2 ^ 1024) then MinusInf else Finite y)"

text \<open>\<^verbatim>\<open>x + y\<close> and \<^verbatim>\<open>x * y\<close> on floats; neither raises.\<close>

fun float_add :: "pyfloat \<Rightarrow> pyfloat \<Rightarrow> pyfloat" where
  "float_add (Finite x) (Finite y) = round_double (x + y)"
| "float_add NaN y = NaN"
| "float_add x NaN = NaN"
| "float_add PlusInf MinusInf = NaN"
| "float_add MinusInf PlusInf = NaN"
| "float_add PlusInf y = PlusInf"
| "float_add MinusInf y = MinusInf"
| "float_add (Finite x) y = y"

fun float_neg :: "pyfloat \<Rightarrow> pyfloat" where
  "float_neg (Finite x) = Finite (- x)"
| "float_neg PlusInf = MinusInf"
| "float_neg MinusInf = PlusInf"
| "float_neg NaN = NaN"

fun float_mul :: "pyfloat \<Rightarrow> pyfloat \<Rightarrow> pyfloat" where
  "float_mul (Finite x) (Finite y) = round_double (x * y)"
| "float_mul NaN y = NaN"
| "float_mul x NaN = NaN"
| "float_mul (Finite x) y = (if x = 0 then NaN else if 0 < x then y else float_neg y)"
| "float_mul x (Finite y) = (if y = 0 then NaN else if 0 < y then x else float_neg x)"
| "float_mul PlusInf y = y"
| "float_mul MinusInf y = float_neg y"

text \<open>
  The conversion of an \<^verbatim>\<open>int\<close> operand of a mixed product. It rounds to the nearest
  double and raises \<^verbatim>\<open>OverflowError\<close> (int too large to convert to float) instead of
  returning an infinity.
\<close>

definition float_of_int :: "int \<Rightarrow> error + pyfloat" where
  "float_of_int i =
     (case round_double (of_int i) of
        Finite x \<Rightarrow> Inr (Finite x)
      | other \<Rightarrow> Inl (OtherError ''OverflowError''))"

text \<open>
  The argument check of \<^verbatim>\<open>time.sleep\<close> in CPython 3.7 and later: the float is multiplied
  by \<open>10 ^ 9\<close>, rounded away from zero to a whole number of nanoseconds and must fit a
  signed 64-bit integer (\<^verbatim>\<open>OverflowError\<close> otherwise; \<^verbatim>\<open>ValueError\<close> for a NaN); a negative
  count is a \<^verbatim>\<open>ValueError\<close>. The result is the number of seconds slept. The system call
  behind it is taken to succeed.
\<close>

definition sleep_seconds :: "pyfloat \<Rightarrow> error + rat" where
  "sleep_seconds d =
     (case d of
        NaN \<Rightarrow> Inl (OtherError ''ValueError'')
      | Finite x \<Rightarrow>
          (case float_mul (Finite x) (Finite (10 ^ 9)) of
             Finite y \<Rightarrow>
               (let ns = (if 0 \<le> y then \<lceil>y\<rceil> else \<lfloor>y\<rfloor>)
                in if ns < - (2 ^ 63) \<or> 2 ^ 63 \<le> ns then Inl (OtherError ''OverflowError'')
                   else if ns < 0 then Inl (OtherError ''ValueError'')
                   else Inr x)
           | other \<Rightarrow> Inl (OtherError ''OverflowError''))
      | other \<Rightarrow> Inl (OtherError ''OverflowError''))"

section \<open>The retry wrapper\<close>

text \<open>
  \<^verbatim>\<open>with_retry(func, max_retries=3, delay_base=2)\<close>, lines 14-28. The loop variable
  \<open>attempt\<close> runs over \<^verbatim>\<open>range(max_retries)\<close>; falling out of the loop returns
  \<^verbatim>\<open>None\<close>.

  Line 26, \<^verbatim>\<open>delay_base * (1 + attempt) * (0.5 + random.random())\<close>: the first product is
  a product of integers and exact; the sum is a sum of floats; the second product converts
  the integer to a float and multiplies floats. \<open>r\<close> is the number drawn.
\<close>

definition backoff_delay :: "int \<Rightarrow> nat \<Rightarrow> rat \<Rightarrow> error + pyfloat" where
  "backoff_delay delay_base attempt r =
     (case float_of_int (delay_base * int (1 + attempt)) of
        Inl err \<Rightarrow> Inl err
      | Inr x \<Rightarrow> Inr (float_mul x (float_add (Finite (1 / 2)) (Finite r))))"

function retry_loop ::
  "(world \<Rightarrow> (error + pyval) \<times> world) \<Rightarrow> nat \<Rightarrow> int \<Rightarrow> nat \<Rightarrow> world
     \<Rightarrow> (error + pyval) \<times> world" where
  "retry_loop func max_retries delay_base attempt w =
     (if max_retries \<le> attempt then (Inr PNone, w)
      else case func w of
        (Inr v, w1) \<Rightarrow> (Inr v, w1)
      | (Inl (APIError e), w1) \<Rightarrow>
          if attempt = max_retries - 1 then (Inl (APIError e), w1)
          else (case random_random w1 of
                  (r, w2) \<Rightarrow>
                    (case backoff_delay delay_base attempt r of
                       Inl err \<Rightarrow> (Inl err, w2)
                     | Inr delay \<Rightarrow>
                         let w3 = st_warning (Retrying delay (attempt + 1) max_retries) w2
                         in (case sleep_seconds delay of
                               Inl err \<Rightarrow> (Inl err, w3)
                             | Inr secs \<Rightarrow>
                                 retry_loop func max_retries delay_base (attempt + 1)
                                   (time_sleep secs w3))))
      | (Inl (OtherError e), w1) \<Rightarrow> (Inl (OtherError e), w1))"
  by pat_completeness auto
termination
  by (relation "measure (\<lambda>(func, max_retries, delay_base, attempt, w). max_retries - attempt)")
    auto

declare retry_loop.simps [simp del]

definition with_retry ::
  "(world \<Rightarrow> (error + pyval) \<times> world) \<Rightarrow> nat \<Rightarrow> int \<Rightarrow> world \<Rightarrow> (error + pyval) \<times> world" where
  "with_retry func max_retries delay_base w = retry_loop func max_retries delay_base 0 w"

text \<open>
  The state in which \<open>func\<close> is called again after a retried failure in state \<open>w1\<close>:
  one draw, the warning of line 27, the sleep of line 28. (When line 26 or line 28 raises,
  it is the state in which the exception leaves \<^verbatim>\<open>with_retry\<close>.)
\<close>

definition backoff :: "nat \<Rightarrow> int \<Rightarrow> nat \<Rightarrow> world \<Rightarrow> world" where
  "backoff max_retries delay_base attempt w1 =
     (case random_random w1 of
        (r, w2) \<Rightarrow>
          (case backoff_delay delay_base attempt r of
             Inl err \<Rightarrow> w2
           | Inr delay \<Rightarrow>
               let w3 = st_warning (Retrying delay (attempt + 1) max_retries) w2
               in (case sleep_seconds delay of
                     Inl err \<Rightarrow> w3
                   | Inr secs \<Rightarrow> time_sleep secs w3)))"

section \<open>Writing an answer\<close>

text \<open>Attribute access on the value a request returned; \<^verbatim>\<open>None.row\<close> raises.\<close>

fun cell_row :: "pyval \<Rightarrow> error + nat" where
  "cell_row (PCell r c v) = Inr r"
| "cell_row _ = Inl (OtherError ''AttributeError'')"

fun cell_val :: "pyval \<Rightarrow> error + pyval" where
  "cell_val (PCell r c v) = Inr (PStr v)"
| "cell_val _ = Inl (OtherError ''AttributeError'')"

text \<open>The inner functions of \<^verbatim>\<open>update_sheet\<close> (lines 64, 74, 86, 93, 103).\<close>

definition find_user :: "string \<Rightarrow> world \<Rightarrow> (error + pyval) \<times> world" where
  "find_user username w = sheet_find username w"

definition get_cell_value :: "nat \<Rightarrow> nat \<Rightarrow> world \<Rightarrow> (error + pyval) \<times> world" where
  "get_cell_value row_number question_num w =
     (case sheet_cell row_number (question_num + 1) w of
        (Inl e, w') \<Rightarrow> (Inl e, w')
      | (Inr cell, w') \<Rightarrow> (cell_val cell, w'))"

definition update_cell :: "nat \<Rightarrow> nat \<Rightarrow> string \<Rightarrow> world \<Rightarrow> (error + pyval) \<times> world" where
  "update_cell row_number question_num answer w =
     sheet_update_cell row_number (question_num + 1) answer w"

definition append_row :: "string \<Rightarrow> world \<Rightarrow> (error + pyval) \<times> world" where
  "append_row username w =
     (case sheet_row_values 1 w of
        (Inl e, w1) \<Rightarrow> (Inl e, w1)
      | (Inr vals, w1) \<Rightarrow>
          let col_count = length vals;
              new_row = [username] @ replicate (col_count - 1) []
          in (case sheet_append_row new_row w1 of
                (Inl e, w2) \<Rightarrow> (Inl e, w2)
              | (Inr u, w2) \<Rightarrow> sheet_find username w2))"

definition update_new_cell :: "nat \<Rightarrow> nat \<Rightarrow> string \<Rightarrow> world \<Rightarrow> (error + pyval) \<times> world" where
  "update_new_cell row_number question_num answer w =
     sheet_update_cell row_number (question_num + 1) answer w"

text \<open>The body of the \<^verbatim>\<open>try\<close> block of \<^verbatim>\<open>update_sheet\<close>, lines 68-107.\<close>

definition update_sheet_try ::
  "string \<Rightarrow> nat \<Rightarrow> string \<Rightarrow> world \<Rightarrow> (error + unit) \<times> world" where
  "update_sheet_try username question_num answer w =
     (case with_retry (find_user username) 3 2 w of
        (Inl e, w1) \<Rightarrow> (Inl e, w1)
      | (Inr cell, w1) \<Rightarrow>
          if truthy cell then
            (case cell_row cell of
               Inl e \<Rightarrow> (Inl e, w1)
             | Inr row_number \<Rightarrow>
                 (case with_retry (get_cell_value row_number question_num) 3 2 w1 of
                    (Inl e, w2) \<Rightarrow> (Inl e, w2)
                  | (Inr existing_answer, w2) \<Rightarrow>
                      if truthy existing_answer then
                        (Inr (),
                         w2\<lparr>session :=
                              \<lparr>ss_confirm_overwrite = True,
                               ss_row_number = PInt row_number,
                               ss_col_number = PInt (question_num + 1),
                               ss_answer = PStr answer,
                               ss_existing_answer = existing_answer\<rparr>\<rparr>)
                      else
                        (case with_retry (update_cell row_number question_num answer) 3 2 w2 of
                           (Inl e, w3) \<Rightarrow> (Inl e, w3)
                         | (Inr u, w3) \<Rightarrow> (Inr (), st_success Sent w3))))
          else
            (case with_retry (append_row username) 3 2 w1 of
               (Inl e, w2) \<Rightarrow> (Inl e, w2)
             | (Inr new_cell, w2) \<Rightarrow>
                 (case cell_row new_cell of
                    Inl e \<Rightarrow> (Inl e, w2)
                  | Inr row_number \<Rightarrow>
                      (case with_retry (update_new_cell row_number question_num answer) 3 2 w2 of
                         (Inl e, w3) \<Rightarrow> (Inl e, w3)
                       | (Inr u, w3) \<Rightarrow> (Inr (), st_success Sent w3)))))"

text \<open>\<^verbatim>\<open>update_sheet\<close> with its handler \<^verbatim>\<open>except Exception\<close>, lines 109-110.\<close>

definition update_sheet :: "string \<Rightarrow> nat \<Rightarrow> string \<Rightarrow> world \<Rightarrow> world" where
  "update_sheet username question_num answer w =
     (case update_sheet_try username question_num answer w of
        (Inl e, w1) \<Rightarrow> st_error (SendFailed e) w1
      | (Inr u, w1) \<Rightarrow> w1)"

section \<open>Logging a question\<close>







section \<open>The confirmation panel and the script\<close>

text \<open>
  \<^verbatim>\<open>_overwrite_cell\<close>, line 170: the arguments are read from the session state; a
  row or column that is not a positive integer is refused before any request is made.
\<close>

definition overwrite_cell :: "world \<Rightarrow> (error + pyval) \<times> world" where
  "overwrite_cell w =
     (case (ss_row_number (session w), ss_col_number (session w), ss_answer (session w)) of
        (PInt r, PInt c, PStr a) \<Rightarrow> sheet_update_cell r c a w
      | _ \<Rightarrow> (Inl (OtherError ''TypeError''), w))"

text \<open>The handler of the button "yes", lines 169-180.\<close>

definition click_yes :: "world \<Rightarrow> world" where
  "click_yes w =
     (case with_retry overwrite_cell 3 2 w of
        (Inr u, w1) \<Rightarrow>
          (let w2 = time_sleep 2 (st_success Overwritten w1);
               w3 = w2\<lparr>session := (session w2)\<lparr>ss_confirm_overwrite := False\<rparr>\<rparr>
           in st_rerun w3)
      | (Inl e, w1) \<Rightarrow> st_error (OverwriteFailed e) w1)"





section \<open>Notions used in the statements\<close>

text \<open>The row \<^verbatim>\<open>_append_row\<close> builds for a new user (lines 95-96).\<close>

definition new_row_for :: "string \<Rightarrow> string list list \<Rightarrow> string list" where
  "new_row_for username rows = [username] @ replicate (length (row_values rows 1) - 1) []"

text \<open>The session state that lines 80-84 store.\<close>

definition pending_session :: "nat \<Rightarrow> nat \<Rightarrow> string \<Rightarrow> string \<Rightarrow> session" where
  "pending_session row col new_answer existing =
     \<lparr>ss_confirm_overwrite = True, ss_row_number = PInt row, ss_col_number = PInt col,
      ss_answer = PStr new_answer, ss_existing_answer = PStr existing\<rparr>"

definition last_event :: "world \<Rightarrow> event option" where
  "last_event w = (if trace w = [] then None else Some (last (trace w)))"


fun is_error_event :: "event \<Rightarrow> bool" where
  "is_error_event (Error n) = True"
| "is_error_event _ = False"

definition error_shown :: "world \<Rightarrow> bool" where
  "error_shown w = (case last_event w of Some ev \<Rightarrow> is_error_event ev | None \<Rightarrow> False)"




section \<open>Example states\<close>

definition example_clock :: "string \<Rightarrow> datetime" where
  "example_clock tz = \<lparr>year = 2024, month = 7, day = 15, hour = 9, minute = 5, second = 3\<rparr>"

text \<open>A sheet with a header row and one user; no fault is scheduled.\<close>

definition example_world :: world where
  "example_world =
     \<lparr>sheet = [[''name'', ''q1'', ''q2''], [''alice'', ''hello'', []]],
      question_sheet = [], faults = [], randoms = [], wall_clock = example_clock,
      session = initial_session, trace = []\<rparr>"

text \<open>An operation that raises an exception other than \<^verbatim>\<open>APIError\<close>.\<close>

definition broken_connection :: "world \<Rightarrow> (error + pyval) \<times> world" where
  "broken_connection w = (Inl (OtherError ''ConnectionError''), w)"

text \<open>
  The same sheet when the service refuses the next three requests (the quota is
  exhausted), and when it refuses only the next one. The first draw is \<open>1/2\<close>.
\<close>

definition quota_error :: error where
  "quota_error = APIError ''quota exceeded''"

definition refusing_world :: world where
  "refusing_world =
     example_world\<lparr>faults := [Some quota_error, Some quota_error, Some quota_error],
                   randoms := [2 ^ 52, 0]\<rparr>"

definition hiccup_world :: world where
  "hiccup_world = example_world\<lparr>faults := [Some quota_error], randoms := [2 ^ 52, 0]\<rparr>"

text \<open>
  The user \<open>alice\<close> has asked to replace her answer \<open>hello\<close> by \<open>world\<close> and the panel
  is shown; the service works, or refuses the next three requests.
\<close>

definition awaiting_world :: world where
  "awaiting_world = example_world\<lparr>session := pending_session 2 2 ''world'' ''hello''\<rparr>"

definition awaiting_refused_world :: world where
  "awaiting_refused_world = refusing_world\<lparr>session := pending_session 2 2 ''world'' ''hello''\<rparr>"

text \<open>
  The service serves the first three requests and refuses the fourth, the \<^verbatim>\<open>find\<close> that
  follows the \<^verbatim>\<open>append_row\<close> of a new user; after that it works again.
\<close>

definition lost_find_world :: world where
  "lost_find_world = example_world\<lparr>faults := [None, None, None, Some quota_error]\<rparr>"

text \<open>
  The service refuses the first request; the next draw is the largest number
  \<^verbatim>\<open>random.random()\<close> can return, \<open>1 - 2 ^ -53\<close>.
\<close>

definition rounding_world :: world where
  "rounding_world = example_world\<lparr>faults := [Some quota_error], randoms := [2 ^ 53 - 1]\<rparr>"

fun is_request :: "event \<Rightarrow> bool" where
  "is_request (Request rq) = True"
| "is_request _ = False"

section \<open>Observations used in the proofs\<close>

definition core :: "world \<Rightarrow> string list list \<times> string list list \<times> session \<times> (string \<Rightarrow> datetime)" where
  "core w = (sheet w, question_sheet w, session w, wall_clock w)"

definition rest :: "world \<Rightarrow> string list list \<times> session \<times> (string \<Rightarrow> datetime)" where
  "rest w = (question_sheet w, session w, wall_clock w)"

definition appended :: "string \<Rightarrow> string list list \<times> (string list list \<times> session \<times> (string \<Rightarrow> datetime))
    \<Rightarrow> string list list \<times> (string list list \<times> session \<times> (string \<Rightarrow> datetime)) \<Rightarrow> bool" where
  "appended u x y \<longleftrightarrow> snd y = snd x \<and> (\<exists>k. fst y = fst x @ replicate k (new_row_for u (fst x)))"

section \<open>Facts about the sheet\<close>

lemma length_pad: "length (pad d n xs) = max n (length xs)"
  by (simp add: pad_def)

lemma cell_value_outside: "length rows < r \<Longrightarrow> cell_value rows r c = []"
  by (simp add: cell_value_def)



lemma nth_pad_old: "i < length xs \<Longrightarrow> pad d n xs ! i = xs ! i"
  by (simp add: pad_def nth_append)

lemma nth_pad_new: "length xs \<le> i \<Longrightarrow> i < n \<Longrightarrow> pad d n xs ! i = d"
  by (simp add: pad_def nth_append)

lemma cell_value_pad_rows: "cell_value (pad [] n rows) r c = cell_value rows r c"
proof (cases "1 \<le> r \<and> r \<le> length rows")
  case True
  then have "pad [] n rows ! (r - 1) = rows ! (r - 1)" by (intro nth_pad_old) auto
  with True show ?thesis by (auto simp: cell_value_def length_pad)
next
  case False
  show ?thesis
  proof (cases "1 \<le> r \<and> r \<le> n")
    case True
    with False have "pad [] n rows ! (r - 1) = []" by (intro nth_pad_new) auto
    with True False show ?thesis by (auto simp: cell_value_def length_pad)
  next
    case False
    with \<open>\<not> (1 \<le> r \<and> r \<le> length rows)\<close> show ?thesis
      by (auto simp: cell_value_def length_pad)
  qed
qed

lemma cell_value_update_row:
  assumes "1 \<le> r" "r \<le> length rows"
  shows "cell_value (rows[r - 1 := row]) r' c' =
         (if r' = r then (if 1 \<le> c' \<and> c' \<le> length row then row ! (c' - 1) else [])
          else cell_value rows r' c')"
proof (cases "r' = r")
  case True
  with assms show ?thesis by (simp add: cell_value_def)
next
  case False
  then have "r' = 0 \<or> r' - 1 \<noteq> r - 1" using assms by auto
  then show ?thesis using False by (auto simp: cell_value_def)
qed

lemma pad_row_nth:
  "(if 1 \<le> c' \<and> c' \<le> length (pad [] c row) then pad [] c row ! (c' - 1) else []) =
   (if 1 \<le> c' \<and> c' \<le> length row then row ! (c' - 1) else ([]::string))"
proof (cases "1 \<le> c' \<and> c' \<le> length row")
  case True
  then have "pad [] c row ! (c' - 1) = row ! (c' - 1)" by (intro nth_pad_old) auto
  with True show ?thesis by (auto simp: length_pad)
next
  case False
  show ?thesis
  proof (cases "1 \<le> c' \<and> c' \<le> c")
    case True
    with False have "pad [] c row ! (c' - 1) = []" by (intro nth_pad_new) auto
    with False show ?thesis by auto
  next
    case False
    with \<open>\<not> (1 \<le> c' \<and> c' \<le> length row)\<close> show ?thesis by (auto simp: length_pad)
  qed
qed

lemma cell_value_set_cell:
  assumes "1 \<le> r" "1 \<le> c"
  shows "cell_value (set_cell rows r c v) r' c' =
         (if r' = r \<and> c' = c then v else cell_value rows r' c')"
proof -
  define R where "R = pad [] r rows"
  define T where "T = pad [] c (R ! (r - 1))"
  have sc: "set_cell rows r c v = R[r - 1 := T[c - 1 := v]]"
    by (simp add: set_cell_def Let_def R_def T_def)
  have rl: "r \<le> length R" by (simp add: R_def length_pad)
  have cl: "c \<le> length T" by (simp add: T_def length_pad)
  have Rv: "cell_value R r' c' = cell_value rows r' c'"
    by (simp add: R_def cell_value_pad_rows)
  have Trow: "(if 1 \<le> c' \<and> c' \<le> length T then T ! (c' - 1) else []) = cell_value R r c'"
    unfolding T_def pad_row_nth using assms rl by (simp add: cell_value_def)
  show ?thesis
  proof (cases "r' = r")
    case False
    then show ?thesis unfolding sc cell_value_update_row[OF assms(1) rl] using Rv by simp
  next
    case True
    show ?thesis
    proof (cases "c' = c")
      case True
      with \<open>r' = r\<close> assms cl show ?thesis
        unfolding sc cell_value_update_row[OF assms(1) rl] by simp
    next
      case False
      then have ne: "c' = 0 \<or> c' - 1 \<noteq> c - 1" using assms by auto
      have "cell_value (set_cell rows r c v) r' c' =
            (if 1 \<le> c' \<and> c' \<le> length T then T ! (c' - 1) else [])"
        unfolding sc cell_value_update_row[OF assms(1) rl] using True ne by auto
      also have "\<dots> = cell_value R r c'" by (rule Trow)
      finally show ?thesis using True False Rv by simp
    qed
  qed
qed

lemma find_in_row_None: "find_in_row q xs c = None \<longleftrightarrow> q \<notin> set xs"
  by (induction xs arbitrary: c) auto

lemma find_in_row_Some:
  "find_in_row q xs c = Some k \<Longrightarrow> c \<le> k \<and> k < c + length xs \<and> xs ! (k - c) = q"
proof (induction xs arbitrary: c)
  case Nil
  then show ?case by simp
next
  case (Cons x xs)
  show ?case
  proof (cases "x = q")
    case True
    with Cons.prems show ?thesis by simp
  next
    case False
    with Cons.prems have "find_in_row q xs (Suc c) = Some k" by simp
    from Cons.IH[OF this] have "Suc c \<le> k" "k < Suc c + length xs" "xs ! (k - Suc c) = q"
      by auto
    then show ?thesis by (auto simp: nth_Cons')
  qed
qed

lemma find_in_rows_None: "find_in_rows q rows r = PNone \<longleftrightarrow> (\<forall>row \<in> set rows. q \<notin> set row)"
proof (induction rows arbitrary: r)
  case Nil
  then show ?case by simp
next
  case (Cons row rest)
  show ?case
  proof (cases "find_in_row q row 1")
    case None
    then have "q \<notin> set row" by (simp add: find_in_row_None)
    with None Cons.IH show ?thesis by simp
  next
    case (Some k)
    then have "q \<in> set row" using find_in_row_None[of q row 1] by auto
    with Some show ?thesis by auto
  qed
qed

lemma find_in_rows_append:
  "find_in_rows q (rows @ extra) r =
     (if find_in_rows q rows r = PNone then find_in_rows q extra (r + length rows)
      else find_in_rows q rows r)"
  by (induction rows arbitrary: r) (auto split: option.splits)

lemma find_in_rows_PCell:
  "find_in_rows q rows r0 = PCell r c v \<Longrightarrow>
     r0 \<le> r \<and> r < r0 + length rows \<and> 1 \<le> c \<and> c \<le> length (rows ! (r - r0)) \<and> rows ! (r - r0) ! (c - 1) = q \<and> v = q"
proof (induction rows arbitrary: r0)
  case Nil
  then show ?case by simp
next
  case (Cons row rest)
  show ?case
  proof (cases "find_in_row q row 1")
    case None
    with Cons.prems have "find_in_rows q rest (Suc r0) = PCell r c v" by simp
    from Cons.IH[OF this] show ?thesis by (auto simp: nth_Cons' Suc_diff_le)
  next
    case (Some k)
    with Cons.prems have "r = r0" "c = k" "v = q" by auto
    with find_in_row_Some[OF Some] show ?thesis by auto
  qed
qed

lemma find_in_rows_shape: "find_in_rows q rows r0 = v \<Longrightarrow> v = PNone \<or> (\<exists>r c. v = PCell r c q)"
  by (induction rows arbitrary: r0) (auto split: option.splits)

lemma find_cell_PCell:
  assumes "find_cell q rows = PCell r c v"
  shows "1 \<le> r \<and> r \<le> length rows \<and> 1 \<le> c \<and> cell_value rows r c = q \<and> v = q"
  using find_in_rows_PCell[of q rows 1 r c v] assms
  by (auto simp: find_cell_def cell_value_def)

lemma find_cell_cases: "find_cell q rows = PNone \<or> (\<exists>r c. find_cell q rows = PCell r c q)"
  using find_in_rows_shape[of q rows 1] by (auto simp: find_cell_def)

lemma find_cell_appended:
  assumes "find_cell u rows = PNone" and "0 < k"
  shows "find_cell u (rows @ replicate k (u # xs)) = PCell (length rows + 1) 1 u"
proof -
  obtain j where k: "k = Suc j" using assms(2) by (cases k) auto
  show ?thesis using assms(1) unfolding k
    by (simp add: find_cell_def find_in_rows_append)
qed

lemma trim_row_single: "trim_row [u] = (if u = [] then [] else [u])"
  by (simp add: trim_row_def)

lemma new_row_for_appended:
  "new_row_for u (rows @ replicate k (new_row_for u rows)) = new_row_for u rows"
proof (cases rows)
  case Nil
  then show ?thesis
    by (cases k) (auto simp: new_row_for_def row_values_def trim_row_single)
next
  case (Cons a list)
  then show ?thesis by (simp add: new_row_for_def row_values_def)
qed

section \<open>Rounding to a double\<close>

lemma bit_length_le_iff: "bit_length n \<le> w \<longleftrightarrow> n < 2 ^ w"
proof (induction n arbitrary: w rule: bit_length.induct)
  case (1 n)
  show ?case
  proof (cases "n = 0")
    case True
    then show ?thesis by (simp add: bit_length.simps)
  next
    case False
    show ?thesis
    proof (cases w)
      case 0
      with False show ?thesis by (subst bit_length.simps) simp
    next
      case (Suc v)
      have "bit_length n \<le> Suc v \<longleftrightarrow> bit_length (n div 2) \<le> v"
        using False by (subst bit_length.simps) simp
      also have "\<dots> \<longleftrightarrow> n div 2 < 2 ^ v" using 1[OF False] .
      also have "\<dots> \<longleftrightarrow> n < 2 ^ Suc v" by (simp add: less_mult_imp_div_less div_less_iff_less_mult mult.commute)
      finally show ?thesis using Suc by simp
    qed
  qed
qed

lemma bit_length_mono: "m \<le> n \<Longrightarrow> bit_length m \<le> bit_length n"
  using bit_length_le_iff[of m "bit_length n"] bit_length_le_iff[of n "bit_length n"] by simp

lemma round_half_even_of_int: "round_half_even (of_int n) = n"
  by (simp add: round_half_even_def)

lemma round_half_even_bounds:
  "\<lfloor>x\<rfloor> \<le> round_half_even x" "round_half_even x \<le> \<lfloor>x\<rfloor> + 1"
  by (simp_all add: round_half_even_def Let_def)

lemma round_half_even_le:
  assumes "x \<le> of_int n"
  shows "round_half_even x \<le> n"
proof (cases "x = of_int n")
  case True
  then show ?thesis by (simp add: round_half_even_of_int)
next
  case False
  with assms have "x < of_int n" by simp
  then have "\<lfloor>x\<rfloor> < n" by (simp add: floor_less_iff)
  with round_half_even_bounds(2)[of x] show ?thesis by simp
qed

lemma round_half_even_ge:
  assumes "of_int n \<le> x"
  shows "n \<le> round_half_even x"
proof -
  have "n \<le> \<lfloor>x\<rfloor>" using assms by (simp add: le_floor_iff)
  with round_half_even_bounds(1)[of x] show ?thesis by simp
qed

lemma round_half_even_mono:
  assumes "x \<le> y"
  shows "round_half_even x \<le> round_half_even y"
proof (cases "\<lfloor>x\<rfloor> = \<lfloor>y\<rfloor>")
  case True
  then have "x - of_int \<lfloor>x\<rfloor> \<le> y - of_int \<lfloor>y\<rfloor>" using assms by simp
  with True show ?thesis by (auto simp add: round_half_even_def Let_def)
next
  case False
  moreover have "\<lfloor>x\<rfloor> \<le> \<lfloor>y\<rfloor>" using assms by (rule floor_mono)
  ultimately have "\<lfloor>x\<rfloor> + 1 \<le> \<lfloor>y\<rfloor>" by simp
  with round_half_even_bounds(2)[of x] round_half_even_bounds(1)[of y] show ?thesis by simp
qed

lemma double_quantum_mono:
  assumes "0 \<le> x" "x \<le> y"
  shows "double_quantum x \<le> double_quantum y"
proof -
  have "\<bar>x\<bar> * 2 ^ 1074 \<le> \<bar>y\<bar> * 2 ^ 1074" using assms by simp
  then have "nat \<lfloor>\<bar>x\<bar> * 2 ^ 1074\<rfloor> \<le> nat \<lfloor>\<bar>y\<bar> * 2 ^ 1074\<rfloor>"
    by (intro nat_mono floor_mono)
  then show ?thesis unfolding double_quantum_def by (intro diff_le_mono bit_length_mono)
qed

text \<open>The scaled value lies below \<open>2 ^ (53 + quantum)\<close> \<dots>\<close>

lemma scaled_less:
  assumes "0 \<le> x"
  shows "x * 2 ^ 1074 < 2 ^ (53 + double_quantum x)"
proof -
  let ?n = "nat \<lfloor>\<bar>x\<bar> * 2 ^ 1074\<rfloor>"
  have "bit_length ?n \<le> 53 + double_quantum x" by (simp add: double_quantum_def)
  then have "?n < 2 ^ (53 + double_quantum x)" by (simp only: bit_length_le_iff)
  then have "int ?n < 2 ^ (53 + double_quantum x)"
    by (metis of_nat_less_iff of_nat_numeral of_nat_power)
  moreover have "0 \<le> \<lfloor>\<bar>x\<bar> * 2 ^ 1074\<rfloor>" using assms by simp
  ultimately have "\<lfloor>x * 2 ^ 1074\<rfloor> < 2 ^ (53 + double_quantum x)" using assms by simp
  then have "x * 2 ^ 1074 < of_int (2 ^ (53 + double_quantum x))"
    by (simp only: floor_less_iff)
  then show ?thesis by simp
qed

text \<open>\<dots> and, when the quantum is not the least one, at or above \<open>2 ^ (52 + quantum)\<close>.\<close>

lemma scaled_ge:
  assumes "0 \<le> x" "0 < double_quantum x"
  shows "2 ^ (52 + double_quantum x) \<le> x * 2 ^ 1074"
proof -
  let ?n = "nat \<lfloor>\<bar>x\<bar> * 2 ^ 1074\<rfloor>"
  have "\<not> bit_length ?n \<le> 52 + double_quantum x" using assms(2) by (simp add: double_quantum_def)
  then have "2 ^ (52 + double_quantum x) \<le> ?n" by (simp only: bit_length_le_iff not_less)
  then have "(2::int) ^ (52 + double_quantum x) \<le> int ?n"
    by (metis of_nat_le_iff of_nat_numeral of_nat_power)
  moreover have "0 \<le> \<lfloor>\<bar>x\<bar> * 2 ^ 1074\<rfloor>" using assms by simp
  ultimately have "2 ^ (52 + double_quantum x) \<le> \<lfloor>x * 2 ^ 1074\<rfloor>" using assms by simp
  then have "of_int (2 ^ (52 + double_quantum x)) \<le> x * 2 ^ 1074"
    by (simp only: le_floor_iff)
  then show ?thesis by simp
qed

lemma round_to_double_mono:
  assumes "0 \<le> x" "x \<le> y"
  shows "round_to_double x \<le> round_to_double y"
proof -
  let ?i = "double_quantum x" and ?j = "double_quantum y"
  have y0: "0 \<le> y" using assms by simp
  have ij: "?i \<le> ?j" using assms by (rule double_quantum_mono)
  have "of_int (round_half_even (x * 2 ^ 1074 / 2 ^ ?i)) * (2::rat) ^ ?i
      \<le> of_int (round_half_even (y * 2 ^ 1074 / 2 ^ ?j)) * 2 ^ ?j"
  proof (cases "?i = ?j")
    case True
    have "x * 2 ^ 1074 / 2 ^ ?j \<le> y * 2 ^ 1074 / 2 ^ ?j"
      using assms by (simp add: divide_right_mono)
    then have "round_half_even (x * 2 ^ 1074 / 2 ^ ?j) \<le> round_half_even (y * 2 ^ 1074 / 2 ^ ?j)"
      by (rule round_half_even_mono)
    then show ?thesis unfolding True by simp
  next
    case False
    with ij have lt: "?i < ?j" by simp
    have "x * 2 ^ 1074 / 2 ^ ?i \<le> 2 ^ (53 + ?i) / 2 ^ ?i"
      using scaled_less[OF assms(1)] by (simp add: divide_right_mono)
    also have "\<dots> = of_int (2 ^ 53)" by (simp add: power_add)
    finally have "round_half_even (x * 2 ^ 1074 / 2 ^ ?i) \<le> 2 ^ 53" by (rule round_half_even_le)
    then have "(of_int (round_half_even (x * 2 ^ 1074 / 2 ^ ?i)) :: rat) \<le> of_int (2 ^ 53)"
      by (simp only: of_int_le_iff)
    then have a: "of_int (round_half_even (x * 2 ^ 1074 / 2 ^ ?i)) * (2::rat) ^ ?i \<le> 2 ^ 53 * 2 ^ ?i"
      by (simp add: mult_right_mono)
    have "(2::rat) ^ (52 + ?j) / 2 ^ ?j \<le> y * 2 ^ 1074 / 2 ^ ?j"
      using scaled_ge[OF y0] lt by (simp add: divide_right_mono)
    moreover have "(2::rat) ^ (52 + ?j) / 2 ^ ?j = of_int (2 ^ 52)" by (simp add: power_add)
    ultimately have "of_int (2 ^ 52) \<le> y * 2 ^ 1074 / 2 ^ ?j" by simp
    then have "2 ^ 52 \<le> round_half_even (y * 2 ^ 1074 / 2 ^ ?j)" by (rule round_half_even_ge)
    then have "(of_int (2 ^ 52) :: rat) \<le> of_int (round_half_even (y * 2 ^ 1074 / 2 ^ ?j))"
      by (simp only: of_int_le_iff)
    then have b: "2 ^ 52 * (2::rat) ^ ?j \<le> of_int (round_half_even (y * 2 ^ 1074 / 2 ^ ?j)) * 2 ^ ?j"
      by (simp add: mult_right_mono)
    have "(2::rat) ^ 53 * 2 ^ ?i = 2 ^ 52 * 2 ^ Suc ?i" by simp
    also have "\<dots> \<le> 2 ^ 52 * 2 ^ ?j"
      using lt by (intro mult_left_mono power_increasing) simp_all
    finally show ?thesis using a b by linarith
  qed
  then show ?thesis unfolding round_to_double_def by (simp add: divide_right_mono)
qed

text \<open>Every \<open>m * 2 ^ t / 2 ^ 1074\<close> with \<open>0 \<le> m < 2 ^ 53\<close> is a double.\<close>

lemma round_to_double_exact:
  assumes "0 \<le> m" "m < 2 ^ 53" and x: "x = of_int m * 2 ^ t / 2 ^ 1074"
  shows "round_to_double x = x"
proof -
  have "(0::rat) \<le> of_int m * 2 ^ t / 2 ^ 1074"
    using assms(1) by (intro divide_nonneg_nonneg mult_nonneg_nonneg) simp_all
  then have x0: "0 \<le> x" by (simp only: x)
  have z: "x * 2 ^ 1074 = of_int (m * 2 ^ t)" unfolding x by simp
  have "nat (m * 2 ^ t) < 2 ^ (53 + t)"
  proof -
    have "m * 2 ^ t < 2 ^ 53 * 2 ^ t" using assms by simp
    then have "m * 2 ^ t < 2 ^ (53 + t)" by (simp add: power_add)
    then show ?thesis using assms(1) by (simp add: nat_less_iff)
  qed
  then have "bit_length (nat (m * 2 ^ t)) \<le> 53 + t" by (simp only: bit_length_le_iff)
  moreover have "\<lfloor>\<bar>x\<bar> * 2 ^ 1074\<rfloor> = m * 2 ^ t"
    using x0 z by (simp only: abs_of_nonneg floor_of_int)
  ultimately have jt: "double_quantum x \<le> t" by (simp add: double_quantum_def)
  define j where "j = double_quantum x"
  obtain d where d: "t = j + d" using jt j_def by (metis le_Suc_ex)
  have "x * 2 ^ 1074 / 2 ^ j = of_int (m * 2 ^ d)"
    unfolding z d by (simp add: power_add)
  then have "round_half_even (x * 2 ^ 1074 / 2 ^ j) = m * 2 ^ d"
    by (simp only: round_half_even_of_int)
  then have "of_int (round_half_even (x * 2 ^ 1074 / 2 ^ j)) * (2::rat) ^ j = of_int (m * 2 ^ t)"
    unfolding d by (simp add: power_add)
  then show ?thesis unfolding round_to_double_def j_def[symmetric] z[symmetric] by simp
qed

lemma round_double_between:
  assumes "0 \<le> lo" "lo \<le> x" "x \<le> hi"
      and "round_to_double lo = lo" "round_to_double hi = hi" "hi < 2 ^ 1024"
  shows "\<exists>y. round_double x = Finite y \<and> lo \<le> y \<and> y \<le> hi"
proof -
  have "round_to_double lo \<le> round_to_double x" using assms(1,2) by (rule round_to_double_mono)
  moreover have "round_to_double x \<le> round_to_double hi"
    using assms(1,2,3) by (intro round_to_double_mono) simp_all
  ultimately have b: "lo \<le> round_to_double x" "round_to_double x \<le> hi" using assms(4,5) by simp_all
  then have "\<not> 2 ^ 1024 \<le> round_to_double x" "\<not> round_to_double x \<le> - (2 ^ 1024)"
    using assms(1,6) by simp_all
  then show ?thesis using b by (simp add: round_double_def Let_def)
qed

section \<open>The delay of a pause\<close>

lemma round_double_exact:
  assumes "0 \<le> m" "m < 2 ^ 53" and x: "x = of_int m * 2 ^ t / 2 ^ 1074" and "x < 2 ^ 1024"
  shows "round_double x = Finite x"
proof -
  have r: "round_to_double x = x" using assms(1,2) x by (rule round_to_double_exact)
  have "(0::rat) \<le> of_int m * 2 ^ t / 2 ^ 1074"
    using assms(1) by (intro divide_nonneg_nonneg mult_nonneg_nonneg) simp_all
  then have "0 \<le> x" by (simp only: x)
  then have "\<not> x \<le> - (2 ^ 1024)" by simp
  then show ?thesis using assms(4) by (simp add: round_double_def r Let_def)
qed

lemma random_random_draw: "\<exists>n. fst (random_random w) = of_nat n / 2 ^ 53 \<and> n < 2 ^ 53"
proof (cases "randoms w")
  case Nil
  then have "fst (random_random w) = of_nat 0 / 2 ^ 53 \<and> (0::nat) < 2 ^ 53"
    by (simp add: random_random_def)
  then show ?thesis by blast
next
  case (Cons k ks)
  then have "fst (random_random w) = of_nat (k mod 2 ^ 53) / 2 ^ 53 \<and> k mod 2 ^ 53 < 2 ^ 53"
    by (simp add: random_random_def)
  then show ?thesis by blast
qed

lemma round_to_double_half: "round_to_double (1 / 2) = 1 / 2"
  by (rule round_to_double_exact[of 1 _ 1073]) simp_all

lemma round_to_double_three_halves: "round_to_double (3 / 2) = 3 / 2"
  by (rule round_to_double_exact[of 3 _ 1073]) simp_all

lemma half_plus_draw:
  assumes "n < (2::nat) ^ 53"
  shows "\<exists>s. round_double (1 / 2 + of_nat n / 2 ^ 53) = Finite s \<and> 1 / 2 \<le> s \<and> s \<le> 3 / 2"
proof -
  let ?r = "of_nat n / (2::rat) ^ 53"
  have "(of_nat n :: rat) < of_nat (2 ^ 53)" using assms by (simp only: of_nat_less_iff)
  then have "?r < 1" by simp
  moreover have "0 \<le> ?r" by simp
  ultimately have "1 / 2 \<le> 1 / 2 + ?r" "1 / 2 + ?r \<le> 3 / 2" by simp_all
  then show ?thesis
    by (intro round_double_between round_to_double_half round_to_double_three_halves) simp_all
qed

lemma float_of_int_exact:
  assumes "0 \<le> i" "i < 2 ^ 53"
  shows "float_of_int i = Inr (Finite (of_int i))"
proof -
  have "(of_int i :: rat) < of_int (2 ^ 53)" using assms(2) by (simp only: of_int_less_iff)
  then have "(of_int i :: rat) < 2 ^ 1024" by simp
  then have "round_double (of_int i) = Finite (of_int i)"
    using assms by (intro round_double_exact[of i _ 1074]) simp_all
  then show ?thesis by (simp add: float_of_int_def)
qed

lemma product_bounds:
  assumes "0 \<le> i" "i \<le> 2 ^ 32" "1 / 2 \<le> s" "s \<le> 3 / 2"
  shows "\<exists>d. round_double (of_int i * s) = Finite d \<and> of_int i / 2 \<le> d \<and> d \<le> 3 * of_int i / 2"
proof -
  let ?i = "of_int i :: rat"
  have i0: "0 \<le> ?i" using assms(1) by simp
  have le: "?i \<le> of_int (2 ^ 32)" using assms(2) by (simp only: of_int_le_iff)
  have lo: "round_to_double (?i / 2) = ?i / 2"
    using assms(1,2) by (intro round_to_double_exact[of i _ 1073]) simp_all
  have "round_to_double (of_int (3 * i) / 2) = of_int (3 * i) / 2"
    using assms(1,2) by (intro round_to_double_exact[of "3 * i" _ 1073]) simp_all
  then have hi: "round_to_double (3 * ?i / 2) = 3 * ?i / 2" by simp
  have a: "?i / 2 \<le> ?i * s" using mult_left_mono[OF assms(3) i0] by simp
  have b: "?i * s \<le> 3 * ?i / 2" using mult_left_mono[OF assms(4) i0] by simp
  have c: "3 * ?i / 2 < 2 ^ 1024" using le by simp
  have d: "0 \<le> ?i / 2" using i0 by simp
  show ?thesis using d a b lo hi c by (rule round_double_between)
qed

lemma sleep_seconds_ok:
  assumes "0 \<le> d" "d \<le> 3 * 2 ^ 31"
  shows "sleep_seconds (Finite d) = Inr d"
proof -
  have lo: "round_to_double 0 = 0" by (rule round_to_double_exact[of 0 _ 0]) simp_all
  have hi: "round_to_double (3 * 2 ^ 61) = 3 * 2 ^ 61"
    by (rule round_to_double_exact[of 3 _ 1135]) simp_all
  have a: "0 \<le> d * 10 ^ 9" using assms(1) by simp
  have "d * 10 ^ 9 \<le> (3 * 2 ^ 31) * 10 ^ 9" using assms(2) by (intro mult_right_mono) simp_all
  also have "\<dots> \<le> 3 * 2 ^ 61" by simp
  finally have b: "d * 10 ^ 9 \<le> 3 * 2 ^ 61" .
  have "\<exists>y. round_double (d * 10 ^ 9) = Finite y \<and> 0 \<le> y \<and> y \<le> 3 * 2 ^ 61"
    using _ a b lo hi by (rule round_double_between) simp_all
  then obtain y where y: "round_double (d * 10 ^ 9) = Finite y" "0 \<le> y" "y \<le> 3 * 2 ^ 61"
    by blast
  have "y \<le> of_int (3 * 2 ^ 61)" using y(3) by simp
  then have "\<lceil>y\<rceil> \<le> 3 * 2 ^ 61" by (simp only: ceiling_le_iff)
  moreover have "0 \<le> \<lceil>y\<rceil>" using y(2) by simp
  ultimately show ?thesis using y(1,2) by (simp add: sleep_seconds_def Let_def)
qed

lemma backoff_delay_ok:
  assumes "0 \<le> delay_base" "delay_base * int (Suc attempt) \<le> 2 ^ 32" "n < (2::nat) ^ 53"
  shows "\<exists>s d. round_double (1 / 2 + of_nat n / 2 ^ 53) = Finite s \<and>
           round_double (of_int (delay_base * int (Suc attempt)) * s) = Finite d \<and>
           of_int (delay_base * int (Suc attempt)) / 2 \<le> d \<and>
           d \<le> 3 * of_int (delay_base * int (Suc attempt)) / 2 \<and>
           backoff_delay delay_base attempt (of_nat n / 2 ^ 53) = Inr (Finite d) \<and>
           sleep_seconds (Finite d) = Inr d"
proof -
  define i where "i = delay_base * int (Suc attempt)"
  have i0: "0 \<le> i" using assms(1) by (simp add: i_def)
  have i32: "i \<le> 2 ^ 32" using assms(2) by (simp only: i_def)
  have i53: "i < 2 ^ 53" using i32 by simp
  obtain s where s: "round_double (1 / 2 + of_nat n / 2 ^ 53) = Finite s" "1 / 2 \<le> s" "s \<le> 3 / 2"
    using half_plus_draw[OF assms(3)] by blast
  obtain d where d: "round_double (of_int i * s) = Finite d" "of_int i / 2 \<le> d"
      "d \<le> 3 * of_int i / 2"
    using product_bounds[OF i0 i32 s(2,3)] by blast
  have "(of_int i :: rat) \<le> of_int (2 ^ 32)" using i32 by (simp only: of_int_le_iff)
  then have "3 * (of_int i :: rat) / 2 \<le> 3 * 2 ^ 31" by simp
  then have d31: "d \<le> 3 * 2 ^ 31" using d(3) by simp
  have "(0::rat) \<le> of_int i" using i0 by (simp only: of_int_0_le_iff)
  then have "(0::rat) \<le> of_int i / 2" by simp
  then have d0: "0 \<le> d" using d(2) by simp
  have "float_of_int i = Inr (Finite (of_int i))" using i0 i53 by (rule float_of_int_exact)
  then have bd: "backoff_delay delay_base attempt (of_nat n / 2 ^ 53) = Inr (Finite d)"
    using d(1) s(1) unfolding i_def by (simp add: backoff_delay_def)
  show ?thesis using s(1) d bd sleep_seconds_ok[OF d0 d31] unfolding i_def by blast
qed

section \<open>Facts about the retry loop\<close>

lemma retry_loop_success:
  assumes "attempt < max_retries" and "func w = (Inr v, w1)"
  shows "retry_loop func max_retries delay_base attempt w = (Inr v, w1)"
  using assms by (simp add: retry_loop.simps)

lemma retry_loop_last_attempt:
  assumes "Suc attempt = max_retries" and "func w = (Inl (APIError e), w1)"
  shows "retry_loop func max_retries delay_base attempt w = (Inl (APIError e), w1)"
  using assms by (auto simp add: retry_loop.simps)

lemma backoff_unfold:
  assumes "0 \<le> delay_base" "delay_base * int (Suc attempt) \<le> 2 ^ 32"
  shows "\<exists>n s d w2. n < (2::nat) ^ 53 \<and> random_random w1 = (of_nat n / 2 ^ 53, w2) \<and>
           round_double (1 / 2 + of_nat n / 2 ^ 53) = Finite s \<and>
           round_double (of_int (delay_base * int (Suc attempt)) * s) = Finite d \<and>
           of_int (delay_base * int (Suc attempt)) / 2 \<le> d \<and>
           d \<le> 3 * of_int (delay_base * int (Suc attempt)) / 2 \<and>
           backoff_delay delay_base attempt (of_nat n / 2 ^ 53) = Inr (Finite d) \<and>
           sleep_seconds (Finite d) = Inr d \<and>
           backoff max_retries delay_base attempt w1 =
             w2\<lparr>trace := trace w2 @
               [Warning (Retrying (Finite d) (Suc attempt) max_retries), Sleep d]\<rparr>"
proof -
  obtain n where n: "fst (random_random w1) = of_nat n / 2 ^ 53" "n < 2 ^ 53"
    using random_random_draw[of w1] by blast
  obtain w2 where w2: "random_random w1 = (of_nat n / 2 ^ 53, w2)"
    using n(1) by (cases "random_random w1") simp
  obtain s d where sd: "round_double (1 / 2 + of_nat n / 2 ^ 53) = Finite s"
      "round_double (of_int (delay_base * int (Suc attempt)) * s) = Finite d"
      "of_int (delay_base * int (Suc attempt)) / 2 \<le> d"
      "d \<le> 3 * of_int (delay_base * int (Suc attempt)) / 2"
      "backoff_delay delay_base attempt (of_nat n / 2 ^ 53) = Inr (Finite d)"
      "sleep_seconds (Finite d) = Inr d"
    using backoff_delay_ok[OF assms n(2)] by blast
  define r where "r = (of_nat n :: rat) / 2 ^ 53"
  have "random_random w1 = (r, w2)" "backoff_delay delay_base attempt r = Inr (Finite d)"
    using w2 sd(5) by (simp_all only: r_def)
  then have "backoff max_retries delay_base attempt w1 =
      w2\<lparr>trace := trace w2 @
        [Warning (Retrying (Finite d) (Suc attempt) max_retries), Sleep d]\<rparr>"
    using sd(6) by (simp add: backoff_def Let_def time_sleep_def st_warning_def emit_def)
  with n(2) w2 sd show ?thesis by blast
qed

lemma retry_loop_retry:
  assumes "Suc attempt < max_retries" and "func w = (Inl (APIError e), w1)"
    and "0 \<le> delay_base" "delay_base * int (Suc attempt) \<le> 2 ^ 32"
  shows "retry_loop func max_retries delay_base attempt w =
         retry_loop func max_retries delay_base (Suc attempt) (backoff max_retries delay_base attempt w1)"
proof -
  obtain n d w2 where u: "random_random w1 = (of_nat n / 2 ^ 53, w2)"
      "backoff_delay delay_base attempt (of_nat n / 2 ^ 53) = Inr (Finite d)"
      "sleep_seconds (Finite d) = Inr d"
    using backoff_unfold[OF assms(3,4), of w1 max_retries] by blast
  define r where "r = (of_nat n :: rat) / 2 ^ 53"
  have v: "random_random w1 = (r, w2)" "backoff_delay delay_base attempt r = Inr (Finite d)"
    using u(1,2) by (simp_all only: r_def)
  have "attempt \<noteq> max_retries - 1" "\<not> max_retries \<le> attempt" using assms(1) by simp_all
  then show ?thesis using assms(2) v u(3)
    by (subst retry_loop.simps) (simp add: backoff_def Let_def)
qed

text \<open>Whatever line 26 and line 28 do, a pause leaves the spreadsheet and the session alone.\<close>

lemma backoff_fields:
  "sheet (backoff m b a w) = sheet w" "question_sheet (backoff m b a w) = question_sheet w"
  "faults (backoff m b a w) = faults w" "session (backoff m b a w) = session w"
  "wall_clock (backoff m b a w) = wall_clock w"
  "filter is_request (trace (backoff m b a w)) = filter is_request (trace w)"
  by (simp_all add: backoff_def random_random_def Let_def time_sleep_def st_warning_def emit_def
      split: list.splits sum.splits)

lemma random_random_range: "0 \<le> fst (random_random w) \<and> fst (random_random w) < 1"
proof (cases "randoms w")
  case Nil
  then show ?thesis by (simp add: random_random_def)
next
  case (Cons n ns)
  have "n mod 2 ^ 53 < (2::nat) ^ 53" by simp
  then have "(of_nat (n mod 2 ^ 53) :: rat) < of_nat (2 ^ 53)" by (simp only: of_nat_less_iff)
  then have "(of_nat (n mod 2 ^ 53) :: rat) / 2 ^ 53 < 1" by simp
  with Cons show ?thesis by (simp add: random_random_def)
qed

lemma retry_loop_cases:
  fixes obs :: "world \<Rightarrow> 'o"
  assumes run: "retry_loop func m b a w = (res, w')" and lt: "a < m"
      and fail: "\<And>w e w'. func w = (Inl e, w') \<Longrightarrow> R (obs w) (obs w')"
      and rfl: "\<And>x. R x x" and trans: "\<And>x y z. R x y \<Longrightarrow> R y z \<Longrightarrow> R x z"
      and warn: "\<And>w d k n. R (obs w) (obs (emit (Warning (Retrying d k n)) w))"
      and slp: "\<And>w d. R (obs w) (obs (emit (Sleep d) w))"
      and rnd: "\<And>w rs. R (obs w) (obs (w\<lparr>randoms := rs\<rparr>))"
  shows "case res of Inl e \<Rightarrow> R (obs w) (obs w')
         | Inr v \<Rightarrow> (\<exists>w0. R (obs w) (obs w0) \<and> func w0 = (Inr v, w'))"
  using run lt fail
proof (induction func m b a w rule: retry_loop.induct)
  case (1 func m b a w)
  obtain x y where fw: "func w = (x, y)" by (cases "func w")
  show ?case
  proof (cases x)
    case (Inr v)
    with 1(2,3) fw have "res = Inr v" "w' = y" by (auto simp: retry_loop.simps)
    with fw Inr rfl show ?thesis by auto
  next
    case (Inl err)
    note xl = this
    have oy: "R (obs w) (obs y)" using "1.prems"(3) fw xl by simp
    show ?thesis
    proof (cases err)
      case (OtherError s)
      with 1(2,3) fw xl have "res = Inl err" "w' = y" by (auto simp: retry_loop.simps)
      with oy show ?thesis by simp
    next
      case (APIError s)
      note ea = this
      show ?thesis
      proof (cases "a = m - 1")
        case True
        with 1(2,3) fw xl ea have "res = Inl err" "w' = y" by (auto simp: retry_loop.simps)
        with oy show ?thesis by simp
      next
        case False
        obtain r y2 where rr: "random_random y = (r, y2)" by (cases "random_random y")
        have "R (obs y) (obs y2)" using rr rfl rnd
          by (auto simp: random_random_def split: list.splits)
        with oy have o2: "R (obs w) (obs y2)" by (rule trans)
        show ?thesis
        proof (cases "backoff_delay b a r")
          case (Inl err2)
          with 1(2) fw xl ea False rr \<open>a < m\<close> have "res = Inl err2" and "w' = y2"
            by (auto simp: retry_loop.simps Let_def)
          then show ?thesis using o2 by simp
        next
          case (Inr delay)
          note bd = this
          let ?w3 = "st_warning (Retrying delay (a + 1) m) y2"
          have o3: "R (obs w) (obs ?w3)"
            using trans[OF o2 warn[of y2]] by (simp add: st_warning_def)
          show ?thesis
          proof (cases "sleep_seconds delay")
            case (Inl err3)
            with 1(2) fw xl ea False rr bd \<open>a < m\<close> have "res = Inl err3" and "w' = ?w3"
              by (auto simp: retry_loop.simps Let_def)
            then show ?thesis using o3 by simp
          next
            case (Inr secs)
            note ss = this
            let ?w4 = "time_sleep secs ?w3"
            have rec: "retry_loop func m b (a + 1) ?w4 = (res, w')"
              using 1(2) fw xl ea False rr bd ss \<open>a < m\<close> by (auto simp: retry_loop.simps Let_def)
            have lt': "a + 1 < m" using False \<open>a < m\<close> by simp
            have o4: "R (obs w) (obs ?w4)"
              using trans[OF o3 slp[of ?w3]] by (simp add: time_sleep_def)
            have ih: "case res of Inl e \<Rightarrow> R (obs ?w4) (obs w')
                      | Inr v \<Rightarrow> (\<exists>w0. R (obs ?w4) (obs w0) \<and> func w0 = (Inr v, w'))"
              using "1.IH"[OF _ fw[symmetric] xl ea False rr[symmetric] bd refl ss rec lt' "1.prems"(3)]
                \<open>a < m\<close>
              by simp
            show ?thesis
            proof (cases res)
              case (Inl e)
              with ih have "R (obs ?w4) (obs w')" by simp
              with o4 have "R (obs w) (obs w')" by (rule trans)
              with Inl show ?thesis by simp
            next
              case (Inr v)
              with ih obtain w0 where "R (obs ?w4) (obs w0)" "func w0 = (Inr v, w')" by auto
              with o4 have "R (obs w) (obs w0) \<and> func w0 = (Inr v, w')" using trans by blast
              with Inr show ?thesis by auto
            qed
          qed
        qed
      qed
    qed
  qed
qed

lemma with_retry_cases:
  fixes obs :: "world \<Rightarrow> 'o"
  assumes run: "with_retry func 3 2 w = (res, w')"
      and fail: "\<And>w e w'. func w = (Inl e, w') \<Longrightarrow> R (obs w) (obs w')"
      and rfl: "\<And>x. R x x" and trans: "\<And>x y z. R x y \<Longrightarrow> R y z \<Longrightarrow> R x z"
      and warn: "\<And>w d k n. R (obs w) (obs (emit (Warning (Retrying d k n)) w))"
      and slp: "\<And>w d. R (obs w) (obs (emit (Sleep d) w))"
      and rnd: "\<And>w rs. R (obs w) (obs (w\<lparr>randoms := rs\<rparr>))"
  shows "case res of Inl e \<Rightarrow> R (obs w) (obs w')
         | Inr v \<Rightarrow> (\<exists>w0. R (obs w) (obs w0) \<and> func w0 = (Inr v, w'))"
  using retry_loop_cases[where obs=obs and R=R, OF run[unfolded with_retry_def] _ fail rfl trans warn slp rnd]
  by simp

text \<open>The observation of everything but the trace, the faults and the draws.\<close>

lemma with_retry_same:
  fixes obs :: "world \<Rightarrow> 'o"
  assumes run: "with_retry func 3 2 w = (res, w')"
      and fail: "\<And>w e w'. func w = (Inl e, w') \<Longrightarrow> obs w' = obs w"
      and ev: "\<And>w e. obs (emit e w) = obs w"
      and rnd: "\<And>w rs. obs (w\<lparr>randoms := rs\<rparr>) = obs w"
  shows "case res of Inl e \<Rightarrow> obs w' = obs w
         | Inr v \<Rightarrow> (\<exists>w0. obs w0 = obs w \<and> func w0 = (Inr v, w'))"
proof -
  have "case res of Inl e \<Rightarrow> (\<lambda>x y. y = x) (obs w) (obs w')
         | Inr v \<Rightarrow> (\<exists>w0. (\<lambda>x y. y = x) (obs w) (obs w0) \<and> func w0 = (Inr v, w'))"
    by (rule with_retry_cases[where obs=obs and R="\<lambda>x y. y = x", OF run])
       (simp_all add: fail ev rnd)
  then show ?thesis by simp
qed

section \<open>Facts about the requests\<close>

lemma emit_fields [simp]:
  "sheet (emit e w) = sheet w" "question_sheet (emit e w) = question_sheet w"
  "session (emit e w) = session w" "wall_clock (emit e w) = wall_clock w"
  "faults (emit e w) = faults w" "randoms (emit e w) = randoms w"
  "trace (emit e w) = trace w @ [e]"
  by (simp_all add: emit_def)

lemma core_emit [simp]: "core (emit e w) = core w"
  by (simp add: core_def)

lemma core_randoms [simp]: "core (w\<lparr>randoms := rs\<rparr>) = core w"
  by (simp add: core_def)

lemma rest_emit [simp]: "rest (emit e w) = rest w"
  by (simp add: rest_def)

lemma rest_randoms [simp]: "rest (w\<lparr>randoms := rs\<rparr>) = rest w"
  by (simp add: rest_def)

lemma core_rest: "core w' = core w \<longleftrightarrow> rest w' = rest w \<and> sheet w' = sheet w"
  by (auto simp: core_def rest_def)

lemma api_call_core: "api_call rq w = (f, w') \<Longrightarrow> core w' = core w"
  by (auto simp: api_call_def core_def split: list.splits)

lemma api_call_trace: "api_call rq w = (f, w') \<Longrightarrow> trace w' = trace w @ [Request rq]"
  by (auto simp: api_call_def split: list.splits)

lemma api_call_ok: "faults w = [] \<Longrightarrow> api_call rq w = (None, emit (Request rq) w)"
  by (simp add: api_call_def)

lemma api_call_fault: "faults w = f # fs \<Longrightarrow> api_call rq w = (f, emit (Request rq) (w\<lparr>faults := fs\<rparr>))"
  by (simp add: api_call_def)

subsection \<open>find\<close>

lemma sheet_find_core: "sheet_find u w = (res, w') \<Longrightarrow> core w' = core w"
  by (auto simp: sheet_find_def dest: api_call_core split: prod.splits option.splits)

lemma sheet_find_Inr:
  "sheet_find u w = (Inr v, w') \<Longrightarrow> v = find_cell u (sheet w) \<and> trace w' = trace w @ [Request (Find u)]"
  by (auto simp: sheet_find_def core_def dest: api_call_core api_call_trace split: prod.splits option.splits)

lemma sheet_find_ok:
  "faults w = [] \<Longrightarrow> sheet_find u w = (Inr (find_cell u (sheet w)), emit (Request (Find u)) w)"
  by (simp add: sheet_find_def api_call_ok)

subsection \<open>cell\<close>

lemma get_cell_value_core: "get_cell_value r q w = (res, w') \<Longrightarrow> core w' = core w"
  by (auto simp: get_cell_value_def sheet_cell_def dest: api_call_core
           split: prod.splits option.splits if_splits sum.splits)

lemma get_cell_value_Inr:
  "get_cell_value r q w = (Inr v, w') \<Longrightarrow>
     v = PStr (cell_value (sheet w) r (q + 1)) \<and> trace w' = trace w @ [Request (GetCell r (q + 1))]"
  by (auto simp: get_cell_value_def sheet_cell_def core_def dest: api_call_core api_call_trace
           split: prod.splits option.splits if_splits sum.splits)

lemma get_cell_value_ok:
  "faults w = [] \<Longrightarrow> 1 \<le> r \<Longrightarrow>
   get_cell_value r q w = (Inr (PStr (cell_value (sheet w) r (q + 1))), emit (Request (GetCell r (q + 1))) w)"
  by (simp add: get_cell_value_def sheet_cell_def api_call_ok)

subsection \<open>update\<close>

lemma sheet_update_cell_rest: "sheet_update_cell r c a w = (res, w') \<Longrightarrow> rest w' = rest w"
  by (auto simp: sheet_update_cell_def rest_def core_def dest: api_call_core
           split: prod.splits option.splits if_splits)

lemma sheet_update_cell_Inl: "sheet_update_cell r c a w = (Inl e, w') \<Longrightarrow> sheet w' = sheet w"
  by (auto simp: sheet_update_cell_def core_def dest: api_call_core
           split: prod.splits option.splits if_splits)

lemma sheet_update_cell_Inr:
  "sheet_update_cell r c a w = (Inr v, w') \<Longrightarrow>
     sheet w' = set_cell (sheet w) r c a \<and> 1 \<le> r \<and> 1 \<le> c \<and>
     trace w' = trace w @ [Request (UpdateCell r c a)]"
  by (auto simp: sheet_update_cell_def core_def dest: api_call_core api_call_trace
           split: prod.splits option.splits if_splits)

lemma sheet_update_cell_ok:
  "faults w = [] \<Longrightarrow> 1 \<le> r \<Longrightarrow> 1 \<le> c \<Longrightarrow>
   sheet_update_cell r c a w =
     (Inr PNone, (emit (Request (UpdateCell r c a)) w)\<lparr>sheet := set_cell (sheet w) r c a\<rparr>)"
  by (simp add: sheet_update_cell_def api_call_ok)

subsection \<open>row values, append\<close>

lemma sheet_row_values_core: "sheet_row_values r w = (res, w') \<Longrightarrow> core w' = core w"
  by (auto simp: sheet_row_values_def dest: api_call_core split: prod.splits option.splits if_splits)

lemma sheet_row_values_Inr: "sheet_row_values r w = (Inr v, w') \<Longrightarrow> v = row_values (sheet w) r"
  by (auto simp: sheet_row_values_def core_def dest: api_call_core
           split: prod.splits option.splits if_splits)

lemma sheet_row_values_ok:
  "faults w = [] \<Longrightarrow> 1 \<le> r \<Longrightarrow>
   sheet_row_values r w = (Inr (row_values (sheet w) r), emit (Request (RowValues r)) w)"
  by (simp add: sheet_row_values_def api_call_ok)

lemma sheet_append_row_rest: "sheet_append_row vals w = (res, w') \<Longrightarrow> rest w' = rest w"
  by (auto simp: sheet_append_row_def rest_def core_def dest: api_call_core
           split: prod.splits option.splits)

lemma sheet_append_row_Inl: "sheet_append_row vals w = (Inl e, w') \<Longrightarrow> sheet w' = sheet w"
  by (auto simp: sheet_append_row_def core_def dest: api_call_core split: prod.splits option.splits)

lemma sheet_append_row_Inr: "sheet_append_row vals w = (Inr v, w') \<Longrightarrow> sheet w' = sheet w @ [vals]"
  by (auto simp: sheet_append_row_def core_def dest: api_call_core split: prod.splits option.splits)

lemma sheet_append_row_ok:
  "faults w = [] \<Longrightarrow>
   sheet_append_row vals w = (Inr PNone, (emit (Request (AppendRow vals)) w)\<lparr>sheet := sheet w @ [vals]\<rparr>)"
  by (simp add: sheet_append_row_def api_call_ok)

lemma append_row_unfold:
  "append_row u w =
     (case sheet_row_values 1 w of
        (Inl e, w1) \<Rightarrow> (Inl e, w1)
      | (Inr vals, w1) \<Rightarrow>
          (case sheet_append_row (new_row_for u (sheet w)) w1 of
             (Inl e, w2) \<Rightarrow> (Inl e, w2)
           | (Inr x, w2) \<Rightarrow> sheet_find u w2))"
proof -
  obtain r1 w1 where a: "sheet_row_values 1 w = (r1, w1)" by (cases "sheet_row_values 1 w")
  show ?thesis
  proof (cases r1)
    case (Inl e)
    with a show ?thesis by (simp add: append_row_def)
  next
    case (Inr vals)
    with a have "sheet_row_values 1 w = (Inr vals, w1)" by simp
    then have "vals = row_values (sheet w) 1" by (rule sheet_row_values_Inr)
    with a Inr show ?thesis by (simp add: append_row_def new_row_for_def Let_def)
  qed
qed

lemma append_row_stages:
  assumes "append_row u w = (res, w')"
  obtains (read_failed) e where "res = Inl e" "sheet w' = sheet w" "rest w' = rest w"
    | (append_failed) e where "res = Inl e" "sheet w' = sheet w" "rest w' = rest w"
    | (find_done) "sheet w' = sheet w @ [new_row_for u (sheet w)]" "rest w' = rest w"
        "\<And>v. res = Inr v \<Longrightarrow> v = find_cell u (sheet w')"
proof -
  obtain r1 w1 where a: "sheet_row_values 1 w = (r1, w1)" by (cases "sheet_row_values 1 w")
  have c1: "sheet w1 = sheet w" "rest w1 = rest w"
    using sheet_row_values_core[OF a] by (simp_all add: core_rest)
  show ?thesis
  proof (cases r1)
    case (Inl e)
    with a assms have "res = Inl e" "w' = w1" by (simp_all add: append_row_unfold)
    with c1 show ?thesis by (intro read_failed[of e]) simp_all
  next
    case (Inr vals)
    let ?row = "new_row_for u (sheet w)"
    obtain r2 w2 where b: "sheet_append_row ?row w1 = (r2, w2)"
      by (cases "sheet_append_row ?row w1")
    have c2: "rest w2 = rest w" using sheet_append_row_rest[OF b] c1 by simp
    show ?thesis
    proof (cases r2)
      case (Inl e)
      with a b Inr assms have rw: "res = Inl e" "w' = w2" by (simp_all add: append_row_unfold)
      from b Inl have "sheet_append_row ?row w1 = (Inl e, w2)" by simp
      then have "sheet w2 = sheet w1" by (rule sheet_append_row_Inl)
      with rw c1 c2 show ?thesis by (intro append_failed[of e]) simp_all
    next
      case r2: (Inr x)
      from b r2 have "sheet_append_row ?row w1 = (Inr x, w2)" by simp
      then have s2: "sheet w2 = sheet w @ [?row]" using c1 by (simp add: sheet_append_row_Inr)
      have f: "sheet_find u w2 = (res, w')" using a b Inr r2 assms by (simp add: append_row_unfold)
      have c3: "sheet w' = sheet w2" "rest w' = rest w2"
        using sheet_find_core[OF f] by (simp_all add: core_rest)
      have v: "v = find_cell u (sheet w')" if "res = Inr v" for v
      proof -
        from f that have "sheet_find u w2 = (Inr v, w')" by simp
        from sheet_find_Inr[OF this] c3 show ?thesis by simp
      qed
      show ?thesis using c3 s2 c2 v by (intro find_done) simp_all
    qed
  qed
qed

lemma append_row_rest: "append_row u w = (res, w') \<Longrightarrow> rest w' = rest w"
  by (erule append_row_stages)

lemma append_row_Inl:
  "append_row u w = (Inl e, w') \<Longrightarrow>
     sheet w' = sheet w \<or> sheet w' = sheet w @ [new_row_for u (sheet w)]"
  by (erule append_row_stages) simp_all

lemma append_row_Inr:
  "append_row u w = (Inr v, w') \<Longrightarrow>
     sheet w' = sheet w @ [new_row_for u (sheet w)] \<and> v = find_cell u (sheet w')"
  by (erule append_row_stages) simp_all

lemma append_row_ok:
  assumes "faults w = []"
  shows "append_row u w =
     (Inr (find_cell u (sheet w @ [new_row_for u (sheet w)])),
      emit (Request (Find u))
        ((emit (Request (AppendRow (new_row_for u (sheet w)))) (emit (Request (RowValues 1)) w))
           \<lparr>sheet := sheet w @ [new_row_for u (sheet w)]\<rparr>))"
proof -
  have a: "sheet_row_values 1 w = (Inr (row_values (sheet w) 1), emit (Request (RowValues 1)) w)"
    using assms by (intro sheet_row_values_ok) simp_all
  let ?w1 = "emit (Request (RowValues 1)) w"
  let ?row = "new_row_for u (sheet w)"
  let ?w2 = "(emit (Request (AppendRow ?row)) ?w1)\<lparr>sheet := sheet w @ [?row]\<rparr>"
  have b: "sheet_append_row ?row ?w1 = (Inr PNone, ?w2)"
    using assms sheet_append_row_ok[of ?w1 ?row] by simp
  have c: "sheet_find u ?w2 = (Inr (find_cell u (sheet w @ [?row])), emit (Request (Find u)) ?w2)"
    using assms sheet_find_ok[of ?w2 u] by simp
  show ?thesis by (simp only: append_row_unfold a b c prod.case sum.case)
qed

subsection \<open>question sheet\<close>





section \<open>Retried requests\<close>

lemma with_retry_first_try: "func w = (Inr v, w') \<Longrightarrow> with_retry func 3 2 w = (Inr v, w')"
  by (simp add: with_retry_def retry_loop_success)

lemma with_retry_find_user:
  assumes "with_retry (find_user u) 3 2 w = (res, w1)"
  shows "core w1 = core w" and "\<And>v. res = Inr v \<Longrightarrow> v = find_cell u (sheet w)"
proof -
  have *: "case res of Inl e \<Rightarrow> core w1 = core w
           | Inr v \<Rightarrow> (\<exists>w0. core w0 = core w \<and> find_user u w0 = (Inr v, w1))"
    by (rule with_retry_same[OF assms]) (auto simp: find_user_def dest: sheet_find_core)
  show "core w1 = core w"
  proof (cases res)
    case (Inl e)
    with * show ?thesis by simp
  next
    case (Inr v)
    with * obtain w0 where "core w0 = core w" "sheet_find u w0 = (Inr v, w1)"
      by (auto simp: find_user_def)
    then show ?thesis using sheet_find_core[of u w0 "Inr v" w1] by simp
  qed
  show "v = find_cell u (sheet w)" if "res = Inr v" for v
  proof -
    from * that obtain w0 where w0: "core w0 = core w" "sheet_find u w0 = (Inr v, w1)"
      by (auto simp: find_user_def)
    from w0(1) have "sheet w0 = sheet w" by (simp add: core_rest)
    with sheet_find_Inr[OF w0(2)] show ?thesis by simp
  qed
qed

lemma with_retry_get_cell_value:
  assumes "with_retry (get_cell_value r q) 3 2 w = (res, w1)"
  shows "core w1 = core w"
    and "\<And>v. res = Inr v \<Longrightarrow> v = PStr (cell_value (sheet w) r (q + 1)) \<and>
                 trace w1 \<noteq> [] \<and> last (trace w1) = Request (GetCell r (q + 1))"
proof -
  have *: "case res of Inl e \<Rightarrow> core w1 = core w
           | Inr v \<Rightarrow> (\<exists>w0. core w0 = core w \<and> get_cell_value r q w0 = (Inr v, w1))"
    by (rule with_retry_same[OF assms]) (auto dest: get_cell_value_core)
  show "core w1 = core w"
  proof (cases res)
    case (Inl e)
    with * show ?thesis by simp
  next
    case (Inr v)
    with * obtain w0 where "core w0 = core w" "get_cell_value r q w0 = (Inr v, w1)" by auto
    then show ?thesis using get_cell_value_core[of r q w0 "Inr v" w1] by simp
  qed
  show "v = PStr (cell_value (sheet w) r (q + 1)) \<and>
        trace w1 \<noteq> [] \<and> last (trace w1) = Request (GetCell r (q + 1))" if "res = Inr v" for v
  proof -
    from * that obtain w0 where w0: "core w0 = core w" "get_cell_value r q w0 = (Inr v, w1)" by auto
    from w0(1) have "sheet w0 = sheet w" by (simp add: core_rest)
    with get_cell_value_Inr[OF w0(2)] show ?thesis by simp
  qed
qed

lemma with_retry_sheet_update_cell:
  assumes "with_retry (sheet_update_cell r c a) 3 2 w = (res, w1)"
  shows "rest w1 = rest w"
    and "\<And>e. res = Inl e \<Longrightarrow> sheet w1 = sheet w"
    and "\<And>v. res = Inr v \<Longrightarrow> sheet w1 = set_cell (sheet w) r c a \<and> 1 \<le> r \<and> 1 \<le> c \<and>
                 trace w1 \<noteq> [] \<and> last (trace w1) = Request (UpdateCell r c a)"
proof -
  have *: "case res of Inl e \<Rightarrow> core w1 = core w
           | Inr v \<Rightarrow> (\<exists>w0. core w0 = core w \<and> sheet_update_cell r c a w0 = (Inr v, w1))"
    by (rule with_retry_same[OF assms])
       (auto simp: core_rest dest: sheet_update_cell_rest sheet_update_cell_Inl)
  show "rest w1 = rest w"
  proof (cases res)
    case (Inl e)
    with * show ?thesis by (simp add: core_rest)
  next
    case (Inr v)
    with * obtain w0 where "core w0 = core w" "sheet_update_cell r c a w0 = (Inr v, w1)" by auto
    then show ?thesis using sheet_update_cell_rest[of r c a w0 "Inr v" w1] by (simp add: core_rest)
  qed
  show "sheet w1 = sheet w" if "res = Inl e" for e
    using * that by (simp add: core_rest)
  show "sheet w1 = set_cell (sheet w) r c a \<and> 1 \<le> r \<and> 1 \<le> c \<and>
        trace w1 \<noteq> [] \<and> last (trace w1) = Request (UpdateCell r c a)" if "res = Inr v" for v
  proof -
    from * that obtain w0 where w0: "core w0 = core w" "sheet_update_cell r c a w0 = (Inr v, w1)"
      by auto
    from w0(1) have "sheet w0 = sheet w" by (simp add: core_rest)
    with sheet_update_cell_Inr[OF w0(2)] show ?thesis by simp
  qed
qed

lemma appended_refl: "appended u x x"
  unfolding appended_def by (auto intro: exI[of _ 0])

lemma appended_trans:
  assumes "appended u x y" "appended u y z"
  shows "appended u x z"
proof -
  from assms(1) obtain k where k: "snd y = snd x" "fst y = fst x @ replicate k (new_row_for u (fst x))"
    unfolding appended_def by auto
  from assms(2) obtain j where j: "snd z = snd y" "fst z = fst y @ replicate j (new_row_for u (fst y))"
    unfolding appended_def by auto
  have "new_row_for u (fst y) = new_row_for u (fst x)"
    unfolding k(2) by (rule new_row_for_appended)
  with j(2) k(2) have "fst z = fst x @ replicate (k + j) (new_row_for u (fst x))"
    by (simp add: replicate_add)
  with j(1) k(1) show ?thesis unfolding appended_def by auto
qed

lemma with_retry_append_row:
  assumes "with_retry (append_row u) 3 2 w = (res, w1)"
  obtains k where "rest w1 = rest w"
    and "sheet w1 = sheet w @ replicate k (new_row_for u (sheet w))"
    and "\<And>v. res = Inr v \<Longrightarrow> 0 < k \<and> v = find_cell u (sheet w1)"
proof -
  let ?obs = "\<lambda>w. (sheet w, rest w)"
  have fail: "appended u (?obs w) (?obs w')" if "append_row u w = (Inl e, w')" for w e w'
  proof -
    have r: "rest w' = rest w" using that by (rule append_row_rest)
    from append_row_Inl[OF that] show ?thesis
    proof
      assume "sheet w' = sheet w"
      with r show ?thesis unfolding appended_def by (auto intro: exI[of _ 0])
    next
      assume "sheet w' = sheet w @ [new_row_for u (sheet w)]"
      with r show ?thesis unfolding appended_def by (auto intro: exI[of _ 1])
    qed
  qed
  have *: "case res of Inl e \<Rightarrow> appended u (?obs w) (?obs w1)
           | Inr v \<Rightarrow> (\<exists>w0. appended u (?obs w) (?obs w0) \<and> append_row u w0 = (Inr v, w1))"
  proof (rule with_retry_cases[where obs="?obs" and R="appended u", OF assms])
    show "appended u (?obs w) (?obs w')" if "append_row u w = (Inl e, w')" for w e w'
      using that by (rule fail)
    show "appended u x x" for x by (rule appended_refl)
    show "appended u x z" if "appended u x y" "appended u y z" for x y z
      using that by (rule appended_trans)
    show "appended u (?obs w) (?obs (emit (Warning (Retrying d k n)) w))" for w d k n
      by (simp add: appended_refl)
    show "appended u (?obs w) (?obs (emit (Sleep d) w))" for w d
      by (simp add: appended_refl)
    show "appended u (?obs w) (?obs (w\<lparr>randoms := rs\<rparr>))" for w rs
      by (simp add: appended_refl)
  qed
  show ?thesis
  proof (cases res)
    case (Inl e)
    with * have "appended u (?obs w) (?obs w1)" by simp
    then obtain k where "rest w1 = rest w" "sheet w1 = sheet w @ replicate k (new_row_for u (sheet w))"
      unfolding appended_def by auto
    with Inl show ?thesis by (intro that[of k]) simp_all
  next
    case (Inr v)
    with * obtain w0 where w0: "appended u (?obs w) (?obs w0)" "append_row u w0 = (Inr v, w1)"
      by auto
    from w0(1) obtain k where k: "rest w0 = rest w"
        "sheet w0 = sheet w @ replicate k (new_row_for u (sheet w))"
      unfolding appended_def by auto
    have nr: "new_row_for u (sheet w0) = new_row_for u (sheet w)"
      unfolding k(2) by (rule new_row_for_appended)
    from append_row_Inr[OF w0(2)] have s1: "sheet w1 = sheet w0 @ [new_row_for u (sheet w0)]"
      and v: "v = find_cell u (sheet w1)" by simp_all
    have "sheet w1 = sheet w @ replicate k (new_row_for u (sheet w)) @ [new_row_for u (sheet w)]"
      using s1 nr k(2) by simp
    then have "sheet w1 = sheet w @ replicate (Suc k) (new_row_for u (sheet w))"
      by (simp add: replicate_append_same)
    moreover have "rest w1 = rest w" using append_row_rest[OF w0(2)] k(1) by simp
    ultimately show ?thesis using Inr v by (intro that[of "Suc k"]) simp_all
  qed
qed


section \<open>The outcomes of update_sheet\<close>

lemma last_event_emit [simp]: "last_event (emit e w) = Some e"
  by (simp add: last_event_def)

lemma find_cell_truthy: "truthy (find_cell u rows) \<longleftrightarrow> find_cell u rows \<noteq> PNone"
  using find_cell_cases[of u rows] by auto

lemma update_sheet_try_found:
  assumes run: "update_sheet_try u q a w = (res, w')"
      and found: "find_cell u (sheet w) = PCell row col v"
  shows "question_sheet w' = question_sheet w \<and> wall_clock w' = wall_clock w"
    and "\<And>e. res = Inl e \<Longrightarrow> sheet w' = sheet w \<and> session w' = session w"
    and "res = Inr () \<Longrightarrow> cell_value (sheet w) row (q + 1) \<noteq> [] \<Longrightarrow>
           sheet w' = sheet w \<and>
           session w' = pending_session row (q + 1) a (cell_value (sheet w) row (q + 1)) \<and>
           last_event w' = Some (Request (GetCell row (q + 1)))"
    and "res = Inr () \<Longrightarrow> cell_value (sheet w) row (q + 1) = [] \<Longrightarrow>
           sheet w' = set_cell (sheet w) row (q + 1) a \<and> session w' = session w \<and>
           last_event w' = Some (Success Sent)"
proof -
  let ?ex = "cell_value (sheet w) row (q + 1)"
  obtain r0 w0 where f: "with_retry (find_user u) 3 2 w = (r0, w0)"
    by (cases "with_retry (find_user u) 3 2 w")
  note F = with_retry_find_user[OF f]
  have c0: "sheet w0 = sheet w" "question_sheet w0 = question_sheet w"
           "session w0 = session w" "wall_clock w0 = wall_clock w"
    using F(1) by (simp_all add: core_def)
  have goal: "(question_sheet w' = question_sheet w \<and> wall_clock w' = wall_clock w) \<and>
    (\<forall>e. res = Inl e \<longrightarrow> sheet w' = sheet w \<and> session w' = session w) \<and>
    (res = Inr () \<longrightarrow> ?ex \<noteq> [] \<longrightarrow> sheet w' = sheet w \<and>
           session w' = pending_session row (q + 1) a ?ex \<and>
           last_event w' = Some (Request (GetCell row (q + 1)))) \<and>
    (res = Inr () \<longrightarrow> ?ex = [] \<longrightarrow> sheet w' = set_cell (sheet w) row (q + 1) a \<and>
           session w' = session w \<and> last_event w' = Some (Success Sent))"
  proof (cases r0)
    case (Inl e)
    with run f have "res = Inl e" "w' = w0" by (simp_all add: update_sheet_try_def)
    with c0 show ?thesis by simp
  next
    case (Inr cell)
    with F(2) found have cell: "cell = PCell row col v" by simp
    obtain r1 w1 where g: "with_retry (get_cell_value row q) 3 2 w0 = (r1, w1)"
      by (cases "with_retry (get_cell_value row q) 3 2 w0")
    note G = with_retry_get_cell_value[OF g]
    have c1: "sheet w1 = sheet w" "question_sheet w1 = question_sheet w"
           "session w1 = session w" "wall_clock w1 = wall_clock w"
      using G(1) c0 by (simp_all add: core_def)
    show ?thesis
    proof (cases r1)
      case (Inl e)
      with run f g Inr cell have "res = Inl e" "w' = w1" by (simp_all add: update_sheet_try_def)
      with c1 show ?thesis by simp
    next
      case r1: (Inr existing)
      from G(2)[OF r1] c0 have ex: "existing = PStr ?ex"
        and tr: "trace w1 \<noteq> []" "last (trace w1) = Request (GetCell row (q + 1))" by simp_all
      show ?thesis
      proof (cases "?ex = []")
        case False
        with run f g Inr cell r1 ex have "res = Inr ()"
          "w' = w1\<lparr>session := pending_session row (q + 1) a ?ex\<rparr>"
          by (simp_all add: update_sheet_try_def pending_session_def)
        with c1 tr False show ?thesis by (simp add: last_event_def)
      next
        case True
        obtain r2 w2 where h: "with_retry (sheet_update_cell row (q + 1) a) 3 2 w1 = (r2, w2)"
          by (cases "with_retry (sheet_update_cell row (q + 1) a) 3 2 w1")
        note H = with_retry_sheet_update_cell[OF h]
        have c2: "question_sheet w2 = question_sheet w" "session w2 = session w"
            "wall_clock w2 = wall_clock w"
          using H(1) c1 by (simp_all add: rest_def)
        have uc: "update_cell row q a = sheet_update_cell row (q + 1) a"
          by (rule ext) (simp add: update_cell_def)
        show ?thesis
        proof (cases r2)
          case (Inl e)
          with run f g h Inr cell r1 ex True uc have "res = Inl e" "w' = w2"
            by (simp_all add: update_sheet_try_def)
          with c2 H(2)[OF Inl] c1 show ?thesis by simp
        next
          case r2: (Inr x)
          with run f g h Inr cell r1 ex True uc have "res = Inr ()" "w' = st_success Sent w2"
            by (simp_all add: update_sheet_try_def)
          with c2 H(3)[OF r2] c1 True show ?thesis by (simp add: st_success_def)
        qed
      qed
    qed
  qed
  show "question_sheet w' = question_sheet w \<and> wall_clock w' = wall_clock w"
    using goal by blast
  show "\<And>e. res = Inl e \<Longrightarrow> sheet w' = sheet w \<and> session w' = session w"
    using goal by blast
  show "res = Inr () \<Longrightarrow> ?ex \<noteq> [] \<Longrightarrow> sheet w' = sheet w \<and>
           session w' = pending_session row (q + 1) a ?ex \<and>
           last_event w' = Some (Request (GetCell row (q + 1)))"
    using goal by blast
  show "res = Inr () \<Longrightarrow> ?ex = [] \<Longrightarrow> sheet w' = set_cell (sheet w) row (q + 1) a \<and>
           session w' = session w \<and> last_event w' = Some (Success Sent)"
    using goal by blast
qed

lemma new_row_for_Cons: "new_row_for u rows = u # replicate (length (row_values rows 1) - 1) []"
  by (simp add: new_row_for_def)

lemma update_sheet_try_new:
  assumes run: "update_sheet_try u q a w = (res, w')"
      and new: "find_cell u (sheet w) = PNone"
  obtains k where "question_sheet w' = question_sheet w" "wall_clock w' = wall_clock w"
      "session w' = session w"
      "\<And>e. res = Inl e \<Longrightarrow> sheet w' = sheet w @ replicate k (new_row_for u (sheet w))"
      "res = Inr () \<Longrightarrow> 0 < k \<and>
         sheet w' = set_cell (sheet w @ replicate k (new_row_for u (sheet w)))
                      (length (sheet w) + 1) (q + 1) a \<and>
         last_event w' = Some (Success Sent)"
proof -
  let ?row = "new_row_for u (sheet w)"
  obtain r0 w0 where f: "with_retry (find_user u) 3 2 w = (r0, w0)"
    by (cases "with_retry (find_user u) 3 2 w")
  note F = with_retry_find_user[OF f]
  have c0: "sheet w0 = sheet w" "question_sheet w0 = question_sheet w"
           "session w0 = session w" "wall_clock w0 = wall_clock w"
    using F(1) by (simp_all add: core_def)
  show ?thesis
  proof (cases r0)
    case (Inl e)
    with run f have "res = Inl e" "w' = w0" by (simp_all add: update_sheet_try_def)
    with c0 show ?thesis by (intro that[of 0]) simp_all
  next
    case (Inr cell)
    with F(2) new have cell: "cell = PNone" by simp
    obtain r1 w1 where g: "with_retry (append_row u) 3 2 w0 = (r1, w1)"
      by (cases "with_retry (append_row u) 3 2 w0")
    from with_retry_append_row[OF g] obtain k where
      G: "rest w1 = rest w0" "sheet w1 = sheet w0 @ replicate k (new_row_for u (sheet w0))"
         "\<And>v. r1 = Inr v \<Longrightarrow> 0 < k \<and> v = find_cell u (sheet w1)"
      by blast
    have c1: "question_sheet w1 = question_sheet w" "session w1 = session w"
        "wall_clock w1 = wall_clock w" "sheet w1 = sheet w @ replicate k ?row"
      using G(1,2) c0 by (simp_all add: rest_def)
    show ?thesis
    proof (cases r1)
      case (Inl e)
      with run f g Inr cell have "res = Inl e" "w' = w1" by (simp_all add: update_sheet_try_def)
      with c1 show ?thesis by (intro that[of k]) simp_all
    next
      case r1: (Inr new_cell)
      from G(3)[OF r1] have k: "0 < k" and nc: "new_cell = find_cell u (sheet w1)" by simp_all
      have "find_cell u (sheet w @ replicate k ?row) = PCell (length (sheet w) + 1) 1 u"
        unfolding new_row_for_Cons using new k by (rule find_cell_appended)
      with nc c1(4) have nc': "new_cell = PCell (length (sheet w) + 1) 1 u" by simp
      let ?r = "length (sheet w) + 1"
      obtain r2 w2 where h: "with_retry (sheet_update_cell ?r (q + 1) a) 3 2 w1 = (r2, w2)"
        by (cases "with_retry (sheet_update_cell ?r (q + 1) a) 3 2 w1")
      note H = with_retry_sheet_update_cell[OF h]
      have c2: "question_sheet w2 = question_sheet w" "session w2 = session w"
          "wall_clock w2 = wall_clock w"
        using H(1) c1 by (simp_all add: rest_def)
      have uc: "update_new_cell ?r q a = sheet_update_cell ?r (q + 1) a"
        by (rule ext) (simp add: update_new_cell_def)
      show ?thesis
      proof (cases r2)
        case (Inl e)
        with run f g h Inr cell r1 nc' uc have "res = Inl e" "w' = w2"
          by (simp_all add: update_sheet_try_def)
        with c2 H(2)[OF Inl] c1 show ?thesis by (intro that[of k]) simp_all
      next
        case r2: (Inr x)
        with run f g h Inr cell r1 nc' uc have "res = Inr ()" "w' = st_success Sent w2"
          by (simp_all add: update_sheet_try_def)
        with c2 H(3)[OF r2] c1 k show ?thesis by (intro that[of k]) (simp_all add: st_success_def)
      qed
    qed
  qed
qed

lemma update_sheet_try_no_fault:
  assumes nf: "faults w = []"
  shows "\<exists>w'. update_sheet_try u q a w = (Inr (), w') \<and>
           (find_cell u (sheet w) = PNone \<longrightarrow>
              sheet w' = set_cell (sheet w @ [new_row_for u (sheet w)]) (length (sheet w) + 1) (q + 1) a)"
proof -
  let ?w0 = "emit (Request (Find u)) w"
  have f: "with_retry (find_user u) 3 2 w = (Inr (find_cell u (sheet w)), ?w0)"
    using nf by (intro with_retry_first_try) (simp add: find_user_def sheet_find_ok)
  have nf0: "faults ?w0 = []" using nf by simp
  from find_cell_cases[of u "sheet w"] show ?thesis
  proof
    assume new: "find_cell u (sheet w) = PNone"
    let ?row = "new_row_for u (sheet w)"
    let ?r = "length (sheet w) + 1"
    let ?w1 = "emit (Request (Find u))
        ((emit (Request (AppendRow ?row)) (emit (Request (RowValues 1)) ?w0))
           \<lparr>sheet := sheet w @ [?row]\<rparr>)"
    have "find_cell u (sheet w @ replicate 1 ?row) = PCell ?r 1 u"
      unfolding new_row_for_Cons using new by (intro find_cell_appended) simp_all
    then have fc: "find_cell u (sheet w @ [?row]) = PCell ?r 1 u" by simp
    have "append_row u ?w0 = (Inr (find_cell u (sheet ?w0 @ [new_row_for u (sheet ?w0)])),
        emit (Request (Find u))
        ((emit (Request (AppendRow (new_row_for u (sheet ?w0)))) (emit (Request (RowValues 1)) ?w0))
           \<lparr>sheet := sheet ?w0 @ [new_row_for u (sheet ?w0)]\<rparr>))"
      using nf0 by (rule append_row_ok)
    then have "append_row u ?w0 = (Inr (PCell ?r 1 u), ?w1)" using fc by simp
    then have g: "with_retry (append_row u) 3 2 ?w0 = (Inr (PCell ?r 1 u), ?w1)"
      by (rule with_retry_first_try)
    have nf1: "faults ?w1 = []" using nf by simp
    have s1: "sheet ?w1 = sheet w @ [?row]" by simp
    let ?w2 = "(emit (Request (UpdateCell ?r (q + 1) a)) ?w1)\<lparr>sheet := set_cell (sheet ?w1) ?r (q + 1) a\<rparr>"
    have "sheet_update_cell ?r (q + 1) a ?w1 = (Inr PNone, ?w2)"
      using nf1 by (intro sheet_update_cell_ok) simp_all
    then have h: "with_retry (update_new_cell ?r q a) 3 2 ?w1 = (Inr PNone, ?w2)"
      by (intro with_retry_first_try) (simp add: update_new_cell_def)
    have "update_sheet_try u q a w = (Inr (), st_success Sent ?w2)"
      by (simp only: update_sheet_try_def f new g h prod.case sum.case truthy.simps
            cell_row.simps if_False)
    moreover have "sheet (st_success Sent ?w2) = set_cell (sheet w @ [?row]) ?r (q + 1) a"
      by (simp add: st_success_def)
    ultimately show ?thesis by blast
  next
    assume "\<exists>r c. find_cell u (sheet w) = PCell r c u"
    then obtain row col where found: "find_cell u (sheet w) = PCell row col u" by blast
    from find_cell_PCell[OF found] have row: "1 \<le> row" by simp
    let ?ex = "cell_value (sheet w) row (q + 1)"
    let ?w1 = "emit (Request (GetCell row (q + 1))) ?w0"
    have "get_cell_value row q ?w0 = (Inr (PStr (cell_value (sheet ?w0) row (q + 1))), ?w1)"
      using nf0 row by (rule get_cell_value_ok)
    then have g: "with_retry (get_cell_value row q) 3 2 ?w0 = (Inr (PStr ?ex), ?w1)"
      by (intro with_retry_first_try) simp
    have nf1: "faults ?w1 = []" using nf by simp
    show ?thesis
    proof (cases "?ex = []")
      case False
      then have "update_sheet_try u q a w =
        (Inr (), ?w1\<lparr>session :=
                              \<lparr>ss_confirm_overwrite = True,
                               ss_row_number = PInt row,
                               ss_col_number = PInt (q + 1),
                               ss_answer = PStr a,
                               ss_existing_answer = PStr ?ex\<rparr>\<rparr>)"
        by (simp only: update_sheet_try_def f found g prod.case sum.case truthy.simps
              cell_row.simps if_True simp_thms)
      then show ?thesis using found by simp
    next
      case True
      let ?w2 = "(emit (Request (UpdateCell row (q + 1) a)) ?w1)\<lparr>sheet := set_cell (sheet ?w1) row (q + 1) a\<rparr>"
      have "sheet_update_cell row (q + 1) a ?w1 = (Inr PNone, ?w2)"
        using nf1 row by (intro sheet_update_cell_ok) simp_all
      then have h: "with_retry (update_cell row q a) 3 2 ?w1 = (Inr PNone, ?w2)"
        by (intro with_retry_first_try) (simp add: update_cell_def)
      have "update_sheet_try u q a w = (Inr (), st_success Sent ?w2)"
        using True
        by (simp only: update_sheet_try_def f found g h prod.case sum.case truthy.simps
              cell_row.simps if_True if_False simp_thms)
      then show ?thesis using found by simp
    qed
  qed
qed

section \<open>Answers of a user who is already in the sheet\<close>

lemma error_shown_st_error [simp]: "error_shown (st_error n w)"
  by (simp add: error_shown_def st_error_def)

lemma st_error_fields [simp]:
  "sheet (st_error n w) = sheet w" "question_sheet (st_error n w) = question_sheet w"
  "session (st_error n w) = session w" "wall_clock (st_error n w) = wall_clock w"
  "last_event (st_error n w) = Some (Error n)"
  by (simp_all add: st_error_def)

lemma update_sheet_Inl:
  "update_sheet_try u q a w = (Inl e, w1) \<Longrightarrow> update_sheet u q a w = st_error (SendFailed e) w1"
  by (simp add: update_sheet_def)

lemma update_sheet_Inr:
  "update_sheet_try u q a w = (Inr x, w1) \<Longrightarrow> update_sheet u q a w = w1"
  by (simp add: update_sheet_def)

lemma update_sheet_no_fault:
  assumes "faults w = []"
  shows "\<not> error_shown (update_sheet u q a w)"
proof -
  from update_sheet_try_no_fault[OF assms, of u q a]
  obtain w1 where t: "update_sheet_try u q a w = (Inr (), w1)" by blast
  have w: "update_sheet u q a w = w1" using t by (rule update_sheet_Inr)
  from find_cell_cases[of u "sheet w"] show ?thesis
  proof
    assume new: "find_cell u (sheet w) = PNone"
    from update_sheet_try_new[OF t new] have "last_event w1 = Some (Success Sent)" by blast
    with w show ?thesis by (simp add: error_shown_def)
  next
    assume "\<exists>r c. find_cell u (sheet w) = PCell r c u"
    then obtain r c where found: "find_cell u (sheet w) = PCell r c u" by blast
    note F = update_sheet_try_found[OF t found]
    show ?thesis
    proof (cases "cell_value (sheet w) r (q + 1) = []")
      case True
      with F(4) w show ?thesis by (simp add: error_shown_def)
    next
      case False
      with F(3) w show ?thesis by (simp add: error_shown_def)
    qed
  qed
qed

text \<open>
  Claim C1. When \<^verbatim>\<open>find\<close> locates the user name in row \<open>row\<close>, \<^verbatim>\<open>update_sheet\<close>
  looks at the cell in column \<open>question_num + 1\<close> of that row. If it is not empty, no
  cell of the sheet changes and the session state becomes exactly the pending overwrite
  (row, column, new answer, existing answer), whatever the new answer is, also when it
  equals the existing one. If it is empty, the session state is left alone (no prompt is
  requested) and the answer is written to that cell, with the success message shown. The
  only other outcome is that a request kept failing and the error message was shown, with
  the sheet and the session unchanged; it cannot happen when no fault is scheduled.
\<close>

theorem update_sheet_existing_user:
  assumes found: "find_cell username (sheet w) = PCell row col v"
  shows "let existing = cell_value (sheet w) row (question_num + 1);
             w' = update_sheet username question_num answer w
         in (existing \<noteq> [] \<longrightarrow>
               sheet w' = sheet w \<and>
               (session w' = pending_session row (question_num + 1) answer existing \<and>
                  \<not> error_shown w'
                \<or> error_shown w' \<and> session w' = session w)) \<and>
            (existing = [] \<longrightarrow>
               session w' = session w \<and>
               (sheet w' = set_cell (sheet w) row (question_num + 1) answer \<and>
                  last_event w' = Some (Success Sent)
                \<or> error_shown w' \<and> sheet w' = sheet w)) \<and>
            (faults w = [] \<longrightarrow> \<not> error_shown w')"
proof -
  obtain res w1 where t: "update_sheet_try username question_num answer w = (res, w1)"
    by (cases "update_sheet_try username question_num answer w")
  note F = update_sheet_try_found[OF t found]
  let ?w' = "update_sheet username question_num answer w"
  let ?ex = "cell_value (sheet w) row (question_num + 1)"
  have nf: "faults w = [] \<longrightarrow> \<not> error_shown ?w'" by (simp add: update_sheet_no_fault)
  show ?thesis
  proof (cases res)
    case (Inl e)
    with t have w: "?w' = st_error (SendFailed e) w1" by (simp add: update_sheet_Inl)
    from F(2)[OF Inl] have "sheet w1 = sheet w" "session w1 = session w" by simp_all
    with w nf show ?thesis by (simp add: Let_def)
  next
    case (Inr x)
    then have r: "res = Inr ()" by simp
    with t have w: "?w' = w1" by (simp add: update_sheet_Inr)
    show ?thesis
    proof (cases "?ex = []")
      case True
      from F(4)[OF r True] w nf True show ?thesis by (simp add: Let_def)
    next
      case False
      from F(3)[OF r False] have "\<not> error_shown w1" by (simp add: error_shown_def)
      with F(3)[OF r False] w nf False show ?thesis by (simp add: Let_def)
    qed
  qed
qed

lemma example_find_alice: "find_cell ''alice'' (sheet example_world) = PCell 2 1 ''alice''"
  by (simp add: example_world_def find_cell_def)

theorem update_sheet_existing_user_witness:
  "find_cell ''alice'' (sheet example_world) = PCell 2 1 ''alice'' \<and>
   cell_value (sheet example_world) 2 (1 + 1) = ''hello'' \<and>
   sheet (update_sheet ''alice'' 1 ''hello'' example_world) = sheet example_world \<and>
   session (update_sheet ''alice'' 1 ''hello'' example_world) =
     pending_session 2 (1 + 1) ''hello'' ''hello'' \<and>
   cell_value (sheet example_world) 2 (2 + 1) = [] \<and>
   sheet (update_sheet ''alice'' 2 ''world'' example_world) =
     [[''name'', ''q1'', ''q2''], [''alice'', ''hello'', ''world'']]"
proof -
  have h: "find_cell ''alice'' (sheet example_world) = PCell 2 1 ''alice''"
    by (simp add: example_world_def find_cell_def)
  have nf: "faults example_world = []" by (simp add: example_world_def)
  have e1: "cell_value (sheet example_world) 2 (1 + 1) = ''hello''"
    by (simp add: example_world_def cell_value_def)
  have e2: "cell_value (sheet example_world) 2 (2 + 1) = []"
    by (simp add: example_world_def cell_value_def)
  have s2: "set_cell (sheet example_world) 2 (2 + 1) ''world'' =
      [[''name'', ''q1'', ''q2''], [''alice'', ''hello'', ''world'']]"
    by (simp add: example_world_def set_cell_def pad_def eval_nat_numeral)
  from update_sheet_existing_user[OF h, of 1 "''hello''"] nf e1
  have a: "sheet (update_sheet ''alice'' 1 ''hello'' example_world) = sheet example_world \<and>
      session (update_sheet ''alice'' 1 ''hello'' example_world) =
        pending_session 2 (1 + 1) ''hello'' ''hello''"
    by (simp only: Let_def) auto
  from update_sheet_existing_user[OF h, of 2 "''world''"] nf e2
  have b: "sheet (update_sheet ''alice'' 2 ''world'' example_world) =
      set_cell (sheet example_world) 2 (2 + 1) ''world''"
    by (simp only: Let_def) auto
  from h e1 e2 a b s2 show ?thesis by simp
qed

section \<open>Answers of a new user\<close>

lemma cell_value_new_row:
  assumes "0 < k"
  shows "cell_value (rows @ replicate k (new_row_for u rows)) (length rows + 1) c =
         (if c = 1 then u else [])"
proof -
  let ?row = "new_row_for u rows"
  have nth: "(rows @ replicate k ?row) ! length rows = ?row"
    using assms by (simp add: nth_append)
  have len: "length rows + 1 \<le> length (rows @ replicate k ?row)" using assms by simp
  have cv: "cell_value (rows @ replicate k ?row) (length rows + 1) c =
        (if 1 \<le> c \<and> c \<le> length ?row then ?row ! (c - 1) else [])"
    using nth len by (simp add: cell_value_def)
  show ?thesis
  proof (cases "c = 1")
    case True
    then show ?thesis unfolding cv by (simp add: new_row_for_Cons)
  next
    case False
    show ?thesis
    proof (cases "1 \<le> c \<and> c \<le> length ?row")
      case True
      with False obtain j where j: "c - 1 = Suc j" by (cases "c - 1") auto
      with True have "j < length (row_values rows 1) - 1" by (simp add: new_row_for_Cons; arith)
      with j True False show ?thesis unfolding cv by (simp add: new_row_for_Cons)
    next
      case False
      with \<open>c \<noteq> 1\<close> show ?thesis unfolding cv by auto
    qed
  qed
qed

text \<open>
  Claim C2. When \<^verbatim>\<open>find\<close> does not locate the user name, \<^verbatim>\<open>update_sheet\<close> appends the
  row made of the user name followed by one empty cell for each further column of the
  header row, finds that row again (it is row \<open>length (sheet w) + 1\<close>) and writes the
  answer into its column \<open>question_num + 1\<close>. Unless a request kept failing and the
  error message was shown, that row then holds the user name in column 1, the answer in
  column \<open>question_num + 1\<close> and nothing in any other column, and the success message is
  shown. Without scheduled faults exactly this happens, with one appended row. The
  session state is never touched.
\<close>

theorem update_sheet_new_user:
  assumes new: "find_cell username (sheet w) = PNone" and q: "1 \<le> question_num"
  shows "let n = length (sheet w);
             new_row = [username] @ replicate (length (row_values (sheet w) 1) - 1) [];
             w' = update_sheet username question_num answer w
         in (error_shown w' \<or>
               (\<exists>k. 0 < k \<and>
                  sheet w' = set_cell (sheet w @ replicate k new_row) (n + 1) (question_num + 1) answer) \<and>
               cell_value (sheet w') (n + 1) 1 = username \<and>
               cell_value (sheet w') (n + 1) (question_num + 1) = answer \<and>
               (\<forall>c. c \<noteq> 1 \<and> c \<noteq> question_num + 1 \<longrightarrow> cell_value (sheet w') (n + 1) c = []) \<and>
               last_event w' = Some (Success Sent)) \<and>
            (faults w = [] \<longrightarrow>
               \<not> error_shown w' \<and>
               sheet w' = set_cell (sheet w @ [new_row]) (n + 1) (question_num + 1) answer) \<and>
            session w' = session w"
proof -
  let ?n = "length (sheet w)"
  let ?row = "new_row_for username (sheet w)"
  let ?w' = "update_sheet username question_num answer w"
  obtain res w1 where t: "update_sheet_try username question_num answer w = (res, w1)"
    by (cases "update_sheet_try username question_num answer w")
  from update_sheet_try_new[OF t new] obtain k where
    K: "session w1 = session w"
       "res = Inr () \<Longrightarrow> 0 < k \<and>
          sheet w1 = set_cell (sheet w @ replicate k ?row) (?n + 1) (question_num + 1) answer \<and>
          last_event w1 = Some (Success Sent)"
    by blast
  have sess: "session ?w' = session w"
  proof (cases res)
    case (Inl e)
    with t K(1) show ?thesis by (simp add: update_sheet_Inl)
  next
    case (Inr x)
    with t K(1) show ?thesis by (simp add: update_sheet_Inr)
  qed
  have main: "error_shown ?w' \<or>
               (\<exists>k. 0 < k \<and>
                  sheet ?w' = set_cell (sheet w @ replicate k ?row) (?n + 1) (question_num + 1) answer) \<and>
               cell_value (sheet ?w') (?n + 1) 1 = username \<and>
               cell_value (sheet ?w') (?n + 1) (question_num + 1) = answer \<and>
               (\<forall>c. c \<noteq> 1 \<and> c \<noteq> question_num + 1 \<longrightarrow> cell_value (sheet ?w') (?n + 1) c = []) \<and>
               last_event ?w' = Some (Success Sent)"
  proof (cases res)
    case (Inl e)
    with t show ?thesis by (simp add: update_sheet_Inl)
  next
    case (Inr x)
    then have r: "res = Inr ()" by simp
    with t have w: "?w' = w1" by (simp add: update_sheet_Inr)
    from K(2)[OF r] have k: "0 < k"
      and s: "sheet w1 = set_cell (sheet w @ replicate k ?row) (?n + 1) (question_num + 1) answer"
      and l: "last_event w1 = Some (Success Sent)" by simp_all
    let ?S = "sheet w @ replicate k ?row"
    have A: "cell_value (set_cell ?S (?n + 1) (question_num + 1) answer) (?n + 1) c =
        (if ?n + 1 = ?n + 1 \<and> c = question_num + 1 then answer else cell_value ?S (?n + 1) c)" for c
      by (rule cell_value_set_cell) simp_all
    have B: "cell_value ?S (?n + 1) c = (if c = 1 then username else [])" for c
      using k by (rule cell_value_new_row)
    have cv: "cell_value (sheet w1) (?n + 1) c =
        (if c = question_num + 1 then answer else if c = 1 then username else [])" for c
      by (simp only: s A B refl simp_thms)
    have q1: "1 \<noteq> question_num + 1" using q by simp
    have c1: "cell_value (sheet w1) (?n + 1) 1 = username"
      by (simp only: cv[of 1] q1 if_False refl if_True)
    have c2: "cell_value (sheet w1) (?n + 1) (question_num + 1) = answer"
      by (simp only: cv[of "question_num + 1"] refl if_True)
    have c3: "\<forall>c. c \<noteq> 1 \<and> c \<noteq> question_num + 1 \<longrightarrow> cell_value (sheet w1) (?n + 1) c = []"
    proof (intro allI impI)
      fix c assume "c \<noteq> 1 \<and> c \<noteq> question_num + 1"
      then show "cell_value (sheet w1) (?n + 1) c = []" by (simp only: cv[of c] if_False)
    qed
    have ex: "\<exists>k. 0 < k \<and>
        sheet w1 = set_cell (sheet w @ replicate k ?row) (?n + 1) (question_num + 1) answer"
      using k s by (intro exI[of _ k] conjI)
    show ?thesis unfolding w
      by (rule disjI2) (intro conjI ex c1 c2 c3 l)
  qed
  have nofault: "faults w = [] \<longrightarrow>
               \<not> error_shown ?w' \<and>
               sheet ?w' = set_cell (sheet w @ [?row]) (?n + 1) (question_num + 1) answer"
  proof
    assume nf: "faults w = []"
    from update_sheet_try_no_fault[OF nf, of username question_num answer] new
    obtain w2 where "update_sheet_try username question_num answer w = (Inr (), w2)"
      "sheet w2 = set_cell (sheet w @ [?row]) (?n + 1) (question_num + 1) answer" by blast
    then have "sheet ?w' = set_cell (sheet w @ [?row]) (?n + 1) (question_num + 1) answer"
      by (simp add: update_sheet_Inr)
    with update_sheet_no_fault[OF nf] show "\<not> error_shown ?w' \<and>
               sheet ?w' = set_cell (sheet w @ [?row]) (?n + 1) (question_num + 1) answer"
      by simp
  qed
  have row: "[username] @ replicate (length (row_values (sheet w) 1) - 1) [] = ?row"
    by (simp add: new_row_for_def)
  show ?thesis unfolding Let_def row
    by (rule conjI[OF main conjI[OF nofault sess]])
qed

theorem update_sheet_new_user_witness:
  "find_cell ''bob'' (sheet example_world) = PNone \<and> (1::nat) \<le> 1 \<and>
   sheet (update_sheet ''bob'' 1 ''hi'' example_world) =
     [[''name'', ''q1'', ''q2''], [''alice'', ''hello'', []], [''bob'', ''hi'', []]] \<and>
   session (update_sheet ''bob'' 1 ''hi'' example_world) = session example_world"
proof -
  have h: "find_cell ''bob'' (sheet example_world) = PNone"
    by (simp add: example_world_def find_cell_def)
  have nf: "faults example_world = []" by (simp add: example_world_def)
  have rv: "[''bob''] @ replicate (length (row_values (sheet example_world) 1) - 1) [] =
      [''bob'', [], []]"
    by (simp add: example_world_def row_values_def trim_row_def eval_nat_numeral)
  have sc: "set_cell (sheet example_world @ [[''bob'', [], []]])
      (length (sheet example_world) + 1) (1 + 1) ''hi'' =
      [[''name'', ''q1'', ''q2''], [''alice'', ''hello'', []], [''bob'', ''hi'', []]]"
    by (simp add: example_world_def set_cell_def pad_def eval_nat_numeral)
  from update_sheet_new_user[OF h, of 1 "''hi''"] nf
  have "sheet (update_sheet ''bob'' 1 ''hi'' example_world) =
      set_cell (sheet example_world @ [[''bob''] @ replicate (length (row_values (sheet example_world) 1) - 1) []])
        (length (sheet example_world) + 1) (1 + 1) ''hi'' \<and>
      session (update_sheet ''bob'' 1 ''hi'' example_world) = session example_world"
    by (simp only: Let_def)
  with h rv sc show ?thesis by simp
qed

section \<open>The number of attempts\<close>

lemma with_retry_three_failures:
  assumes "func w0 = (Inl (APIError e1), w1)"
      and "func (backoff 3 2 0 w1) = (Inl (APIError e2), w2)"
      and "func (backoff 3 2 1 w2) = (Inl (APIError e3), w3)"
  shows "with_retry func 3 2 w0 = (Inl (APIError e3), w3)"
proof -
  have "retry_loop func 3 2 0 w0 = retry_loop func 3 2 (Suc 0) (backoff 3 2 0 w1)"
    using assms by (intro retry_loop_retry) simp_all
  also have "\<dots> = retry_loop func 3 2 (Suc (Suc 0)) (backoff 3 2 (Suc 0) w2)"
    using assms by (intro retry_loop_retry) simp_all
  also have "\<dots> = (Inl (APIError e3), w3)"
    using assms by (intro retry_loop_last_attempt) simp_all
  finally show ?thesis by (simp add: with_retry_def)
qed

lemma with_retry_second_try:
  assumes "func w0 = (Inl (APIError e1), w1)" and "func (backoff 3 2 0 w1) = (Inr v, w2)"
  shows "with_retry func 3 2 w0 = (Inr v, w2)"
proof -
  have "retry_loop func 3 2 0 w0 = retry_loop func 3 2 (Suc 0) (backoff 3 2 0 w1)"
    using assms by (intro retry_loop_retry) simp_all
  also have "\<dots> = (Inr v, w2)"
    using assms by (intro retry_loop_success) simp_all
  finally show ?thesis by (simp add: with_retry_def)
qed

text \<open>
  Claim C3. With the defaults (three attempts): an operation that raises an
  \<^verbatim>\<open>APIError\<close> when first called, again when called after the first pause and again
  when called after the second pause makes \<^verbatim>\<open>with_retry\<close> raise that third
  \<^verbatim>\<open>APIError\<close> in the state the third call left, so there is no fourth call and no
  third pause. An operation that raises an \<^verbatim>\<open>APIError\<close> when first called and returns
  a value when called after the first pause makes \<^verbatim>\<open>with_retry\<close> return that value
  in the state the second call left.
\<close>

theorem with_retry_attempts:
  "(func w0 = (Inl (APIError e1), w1) \<and>
    func (backoff 3 2 0 w1) = (Inl (APIError e2), w2) \<and>
    func (backoff 3 2 1 w2) = (Inl (APIError e3), w3)
      \<longrightarrow> with_retry func 3 2 w0 = (Inl (APIError e3), w3)) \<and>
   (func w0 = (Inl (APIError e1), w1) \<and>
    func (backoff 3 2 0 w1) = (Inr v, w2')
      \<longrightarrow> with_retry func 3 2 w0 = (Inr v, w2'))"
  by (auto intro: with_retry_three_failures with_retry_second_try)

lemmas world_eval =
  refusing_world_def hiccup_world_def example_world_def quota_error_def find_user_def
  sheet_find_def api_call_def emit_def backoff_fields time_sleep_def
  st_warning_def find_cell_def

theorem with_retry_attempts_witness:
  "fst (with_retry (find_user ''alice'') 3 2 refusing_world) = Inl quota_error \<and>
   filter is_request (trace (snd (with_retry (find_user ''alice'') 3 2 refusing_world))) =
     [Request (Find ''alice''), Request (Find ''alice''), Request (Find ''alice'')] \<and>
   fst (with_retry (find_user ''alice'') 3 2 hiccup_world) = Inr (PCell 2 1 ''alice'') \<and>
   filter is_request (trace (snd (with_retry (find_user ''alice'') 3 2 hiccup_world))) =
     [Request (Find ''alice''), Request (Find ''alice'')]"
proof -
  let ?f = "find_user ''alice''"
  let ?q = "''quota exceeded''"
  let ?a1 = "?f refusing_world"
  let ?a2 = "?f (backoff 3 2 0 (snd ?a1))"
  let ?a3 = "?f (backoff 3 2 1 (snd ?a2))"
  have f1: "fst ?a1 = Inl (APIError ?q)" by (simp add: world_eval)
  have f2: "fst ?a2 = Inl (APIError ?q)" by (simp add: world_eval)
  have f3: "fst ?a3 = Inl (APIError ?q)" by (simp add: world_eval)
  have t3: "filter is_request (trace (snd ?a3)) =
      [Request (Find ''alice''), Request (Find ''alice''), Request (Find ''alice'')]"
    by (simp add: world_eval)
  have h: "?f refusing_world = (Inl (APIError ?q), snd ?a1) \<and>
      ?f (backoff 3 2 0 (snd ?a1)) = (Inl (APIError ?q), snd ?a2) \<and>
      ?f (backoff 3 2 1 (snd ?a2)) = (Inl (APIError ?q), snd ?a3)"
    using f1 f2 f3 by (simp add: prod_eq_iff)
  from with_retry_attempts[of ?f refusing_world ?q "snd ?a1" ?q "snd ?a2" ?q "snd ?a3"] h
  have r: "with_retry ?f 3 2 refusing_world = (Inl (APIError ?q), snd ?a3)" by blast
  let ?b1 = "?f hiccup_world"
  let ?b2 = "?f (backoff 3 2 0 (snd ?b1))"
  have g1: "fst ?b1 = Inl (APIError ?q)" by (simp add: world_eval)
  have g2: "fst ?b2 = Inr (PCell 2 1 ''alice'')" by (simp add: world_eval)
  have u2: "filter is_request (trace (snd ?b2)) =
      [Request (Find ''alice''), Request (Find ''alice'')]"
    by (simp add: world_eval)
  have k: "?f hiccup_world = (Inl (APIError ?q), snd ?b1) \<and>
      ?f (backoff 3 2 0 (snd ?b1)) = (Inr (PCell 2 1 ''alice''), snd ?b2)"
    using g1 g2 by (simp add: prod_eq_iff)
  from with_retry_attempts[of ?f hiccup_world ?q "snd ?b1" _ _ _ _ "PCell 2 1 ''alice''" "snd ?b2"] k
  have s: "with_retry ?f 3 2 hiccup_world = (Inr (PCell 2 1 ''alice''), snd ?b2)" by blast
  show ?thesis unfolding r s using t3 u2 by (simp add: quota_error_def)
qed

section \<open>The pause before a retry\<close>

lemma bit_length_eq:
  assumes "2 ^ v \<le> n" "n < 2 ^ Suc v"
  shows "bit_length n = Suc v"
proof -
  have "bit_length n \<le> Suc v" using assms(2) by (simp only: bit_length_le_iff)
  moreover have "\<not> bit_length n \<le> v" using assms(1) by (simp only: bit_length_le_iff not_less)
  ultimately show ?thesis by simp
qed

lemma backoff_eval:
  assumes "random_random w1 = (r, w2)" "backoff_delay delay_base attempt r = Inr (Finite d)"
      and "sleep_seconds (Finite d) = Inr d"
  shows "backoff max_retries delay_base attempt w1 =
           w2\<lparr>trace := trace w2 @
             [Warning (Retrying (Finite d) (Suc attempt) max_retries), Sleep d]\<rparr>"
  using assms by (simp add: backoff_def Let_def time_sleep_def st_warning_def emit_def)

text \<open>\<open>0.5 + 0.5\<close> is \<open>1.0\<close>, and \<open>2 * 1.0\<close> is \<open>2.0\<close>.\<close>

lemma round_double_one: "round_double 1 = Finite 1"
  by (rule round_double_exact[of 1 _ 1074]) simp_all

lemma round_double_two: "round_double 2 = Finite 2"
  by (rule round_double_exact[of 1 _ 1075]) simp_all

lemma round_double_three: "round_double 3 = Finite 3"
  by (rule round_double_exact[of 3 _ 1074]) simp_all

lemma float_of_int_two: "float_of_int 2 = Inr (Finite 2)"
  using float_of_int_exact[of 2] by simp

lemma backoff_delay_half: "backoff_delay 2 0 (1 / 2) = Inr (Finite 2)"
  by (simp add: backoff_delay_def float_of_int_two round_double_one round_double_two)

text \<open>
  \<open>0.5 + (1 - 2 ^ -53)\<close> is halfway between the doubles \<open>1.5 - 2 ^ -52\<close> and \<open>1.5\<close>; the
  multiplier of \<open>1.5\<close> is even, so the sum is \<open>1.5\<close>.
\<close>

lemma round_double_tie: "round_double (1 / 2 + (2 ^ 53 - 1) / 2 ^ 53) = Finite (3 / 2)"
proof -
  let ?x = "(1 / 2 + (2 ^ 53 - 1) / 2 ^ 53) :: rat"
  have "nat \<lfloor>\<bar>?x\<bar> * 2 ^ 1074\<rfloor> = (3 * 2 ^ 52 - 1) * 2 ^ 1021" by simp
  moreover have "bit_length ((3 * 2 ^ 52 - 1) * 2 ^ 1021) = Suc 1074"
    by (rule bit_length_eq) simp_all
  ultimately have q: "double_quantum ?x = 1022" by (simp only: double_quantum_def)
  have "?x * 2 ^ 1074 / 2 ^ 1022 = 13510798882111487 / 2" by simp
  moreover have "\<lfloor>13510798882111487 / 2 :: rat\<rfloor> = 6755399441055743"
    by (rule floor_unique) simp_all
  then have "round_half_even (13510798882111487 / 2) = 6755399441055744"
    by (simp add: round_half_even_def Let_def)
  ultimately have "round_half_even (?x * 2 ^ 1074 / 2 ^ 1022) = 6755399441055744" by (simp only:)
  then have "round_to_double ?x = 6755399441055744 * 2 ^ 1022 / 2 ^ 1074"
    by (simp only: round_to_double_def q of_int_numeral)
  also have "\<dots> = 3 / 2" by simp
  finally show ?thesis by (simp only: round_double_def Let_def) simp
qed

lemma backoff_delay_tie: "backoff_delay 2 0 ((2 ^ 53 - 1) / 2 ^ 53) = Inr (Finite 3)"
proof -
  have "float_add (Finite (1 / 2)) (Finite ((2 ^ 53 - 1) / 2 ^ 53)) = Finite (3 / 2)"
    using round_double_tie by (simp only: float_add.simps)
  then show ?thesis
    by (simp add: backoff_delay_def float_of_int_two round_double_three)
qed

text \<open>
  Claim C8 as the spec states it fails: the largest draw, \<open>r = 1 - 2 ^ -53\<close>, makes the
  first pause of the defaults exactly \<open>3 = 1.5 * 2 * 1\<close> seconds. The pause is not below
  \<open>1.5 * delay_base * k\<close>, and it is not the exact product \<open>delay_base * k * (0.5 + r)\<close>.
\<close>

theorem backoff_delay_reaches_upper_end:
  "fst (random_random (snd (find_user ''alice'' rounding_world))) = (2 ^ 53 - 1) / 2 ^ 53 \<and>
   fst (with_retry (find_user ''alice'') 3 2 rounding_world) = Inr (PCell 2 1 ''alice'') \<and>
   trace (snd (with_retry (find_user ''alice'') 3 2 rounding_world)) =
     [Request (Find ''alice''), Warning (Retrying (Finite 3) 1 3), Sleep 3,
      Request (Find ''alice'')] \<and>
   \<not> (3::rat) < 3 / 2 * (2 * 1) \<and>
   (3::rat) \<noteq> 2 * 1 * (1 / 2 + (2 ^ 53 - 1) / 2 ^ 53)"
proof -
  let ?f = "find_user ''alice''"
  let ?q = "''quota exceeded''"
  let ?w1 = "snd (?f rounding_world)"
  note ev = rounding_world_def example_world_def quota_error_def find_user_def sheet_find_def
    api_call_def emit_def find_cell_def
  have f1: "fst (?f rounding_world) = Inl (APIError ?q)" by (simp add: ev)
  then have h1: "?f rounding_world = (Inl (APIError ?q), ?w1)" by (simp add: prod_eq_iff)
  have rr: "random_random ?w1 = ((2 ^ 53 - 1) / 2 ^ 53, ?w1\<lparr>randoms := []\<rparr>)"
    by (simp add: ev random_random_def)
  have s3: "sleep_seconds (Finite 3) = Inr 3" by (rule sleep_seconds_ok) simp_all
  have b: "backoff 3 2 0 ?w1 = (?w1\<lparr>randoms := []\<rparr>)\<lparr>trace := trace (?w1\<lparr>randoms := []\<rparr>) @
      [Warning (Retrying (Finite 3) (Suc 0) 3), Sleep 3]\<rparr>"
    using rr backoff_delay_tie s3 by (rule backoff_eval)
  let ?a2 = "?f (backoff 3 2 0 ?w1)"
  have f2: "fst ?a2 = Inr (PCell 2 1 ''alice'')" unfolding b by (simp add: ev)
  then have h2: "?a2 = (Inr (PCell 2 1 ''alice''), snd ?a2)" by (simp add: prod_eq_iff)
  have r: "with_retry ?f 3 2 rounding_world = (Inr (PCell 2 1 ''alice''), snd ?a2)"
    using h1 h2 by (rule with_retry_second_try)
  have t: "trace (snd ?a2) =
     [Request (Find ''alice''), Warning (Retrying (Finite 3) 1 3), Sleep 3,
      Request (Find ''alice'')]"
    unfolding b by (simp add: ev)
  have d: "fst (random_random ?w1) = (2 ^ 53 - 1) / 2 ^ 53" using rr by simp
  show ?thesis unfolding r using t d by simp
qed

text \<open>
  Claim C8, amended: the arithmetic of line 26 is that of doubles. When an attempt that is not
  the last one raises an \<^verbatim>\<open>APIError\<close>, with \<open>k = attempt + 1\<close> attempts made,
  \<open>0 \<le> delay_base\<close> and \<open>delay_base * k \<le> 2 ^ 32\<close>: \<^verbatim>\<open>random.random()\<close> is drawn once and
  gives \<open>r = n / 2 ^ 53\<close> for some \<open>n < 2 ^ 53\<close>; the delay \<open>d\<close> is the double nearest to
  \<open>delay_base * k * s\<close>, where \<open>s\<close> is the double nearest to \<open>1/2 + r\<close>; it lies in the closed
  interval from \<open>delay_base * k / 2\<close> to \<open>3 * delay_base * k / 2\<close>; the warning that carries
  \<open>d\<close>, \<open>k\<close> and \<open>max_retries\<close> and then the sleep of \<open>d\<close> seconds are added to the trace and
  nothing else changes but the consumed draw; the loop goes on from that state with the next
  attempt, and an operation that succeeds there ends it with that value.
\<close>

theorem with_retry_backoff:
  assumes "Suc attempt < max_retries"
      and "0 \<le> delay_base" and "delay_base * int (Suc attempt) \<le> 2 ^ 32"
      and "func w = (Inl (APIError e), w1)"
  shows "\<exists>n s d w2.
      n < (2::nat) ^ 53 \<and> random_random w1 = (of_nat n / 2 ^ 53, w2) \<and>
      round_double (1 / 2 + of_nat n / 2 ^ 53) = Finite s \<and>
      round_double (of_int (delay_base * int (Suc attempt)) * s) = Finite d \<and>
      of_int (delay_base * int (Suc attempt)) / 2 \<le> d \<and>
      d \<le> 3 * of_int (delay_base * int (Suc attempt)) / 2 \<and>
      backoff max_retries delay_base attempt w1 =
        w2\<lparr>trace := trace w2 @
          [Warning (Retrying (Finite d) (Suc attempt) max_retries), Sleep d]\<rparr> \<and>
      retry_loop func max_retries delay_base attempt w =
        retry_loop func max_retries delay_base (Suc attempt)
          (backoff max_retries delay_base attempt w1) \<and>
      (\<forall>v w'. func (backoff max_retries delay_base attempt w1) = (Inr v, w') \<longrightarrow>
         retry_loop func max_retries delay_base attempt w = (Inr v, w'))"
proof -
  obtain n s d w2 where u: "n < (2::nat) ^ 53" "random_random w1 = (of_nat n / 2 ^ 53, w2)"
      "round_double (1 / 2 + of_nat n / 2 ^ 53) = Finite s"
      "round_double (of_int (delay_base * int (Suc attempt)) * s) = Finite d"
      "of_int (delay_base * int (Suc attempt)) / 2 \<le> d"
      "d \<le> 3 * of_int (delay_base * int (Suc attempt)) / 2"
      "backoff max_retries delay_base attempt w1 =
        w2\<lparr>trace := trace w2 @
          [Warning (Retrying (Finite d) (Suc attempt) max_retries), Sleep d]\<rparr>"
    using backoff_unfold[OF assms(2,3), of w1 max_retries] by blast
  have step: "retry_loop func max_retries delay_base attempt w =
      retry_loop func max_retries delay_base (Suc attempt)
        (backoff max_retries delay_base attempt w1)"
    using assms(1,4,2,3) by (rule retry_loop_retry)
  have ok: "retry_loop func max_retries delay_base attempt w = (Inr v, w')"
    if "func (backoff max_retries delay_base attempt w1) = (Inr v, w')" for v w'
    unfolding step using assms(1) that by (rule retry_loop_success)
  show ?thesis
    by (intro exI[of _ n] exI[of _ s] exI[of _ d] exI[of _ w2] conjI u step allI impI ok)
qed

theorem with_retry_backoff_witness:
  "Suc 0 < (3::nat) \<and> (0::int) \<le> 2 \<and> (2::int) * int (Suc 0) \<le> 2 ^ 32 \<and>
   fst (find_user ''alice'' hiccup_world) = Inl (APIError ''quota exceeded'') \<and>
   fst (with_retry (find_user ''alice'') 3 2 hiccup_world) = Inr (PCell 2 1 ''alice'') \<and>
   trace (snd (with_retry (find_user ''alice'') 3 2 hiccup_world)) =
     [Request (Find ''alice''), Warning (Retrying (Finite 2) 1 3), Sleep 2,
      Request (Find ''alice'')]"
proof -
  let ?f = "find_user ''alice''"
  let ?q = "''quota exceeded''"
  let ?w1 = "snd (?f hiccup_world)"
  note ev = hiccup_world_def example_world_def quota_error_def find_user_def sheet_find_def
    api_call_def emit_def find_cell_def
  have f1: "fst (?f hiccup_world) = Inl (APIError ?q)" by (simp add: ev)
  then have h1: "?f hiccup_world = (Inl (APIError ?q), ?w1)" by (simp add: prod_eq_iff)
  have p: "Suc 0 < (3::nat)" "(0::int) \<le> 2" "(2::int) * int (Suc 0) \<le> 2 ^ 32" by simp_all
  obtain n s d w2 where u: "random_random ?w1 = (of_nat n / 2 ^ 53, w2)"
      "round_double (1 / 2 + of_nat n / 2 ^ 53) = Finite s"
      "round_double (of_int (2 * int (Suc 0)) * s) = Finite d"
      "backoff 3 2 0 ?w1 =
        w2\<lparr>trace := trace w2 @ [Warning (Retrying (Finite d) (Suc 0) 3), Sleep d]\<rparr>"
      "\<forall>v w'. ?f (backoff 3 2 0 ?w1) = (Inr v, w') \<longrightarrow>
         retry_loop ?f 3 2 0 hiccup_world = (Inr v, w')"
    using with_retry_backoff[of 0 3 2 ?f hiccup_world ?q ?w1] p h1 by blast
  define r where "r = (of_nat n :: rat) / 2 ^ 53"
  note v = u(1,2)[folded r_def]
  have "random_random ?w1 = (1 / 2, ?w1\<lparr>randoms := [0]\<rparr>)"
    by (simp add: ev random_random_def)
  with v(1) have r: "r = 1 / 2" and w2: "w2 = ?w1\<lparr>randoms := [0]\<rparr>" by simp_all
  have "round_double (1 / 2 + r) = Finite 1" unfolding r using round_double_one by simp
  with v(2) have s: "s = 1" by simp
  have "round_double (of_int (2 * int (Suc 0)) * s) = Finite 2"
    unfolding s using round_double_two by simp
  with u(3) have d: "d = 2" by simp
  note b = u(4)[unfolded d w2]
  let ?a2 = "?f (backoff 3 2 0 ?w1)"
  have f2: "fst ?a2 = Inr (PCell 2 1 ''alice'')" unfolding b by (simp add: ev)
  then have h2: "?a2 = (Inr (PCell 2 1 ''alice''), snd ?a2)" by (simp add: prod_eq_iff)
  with u(5) have "retry_loop ?f 3 2 0 hiccup_world = (Inr (PCell 2 1 ''alice''), snd ?a2)"
    by blast
  then have res: "with_retry ?f 3 2 hiccup_world = (Inr (PCell 2 1 ''alice''), snd ?a2)"
    by (simp only: with_retry_def)
  have t: "trace (snd ?a2) =
     [Request (Find ''alice''), Warning (Retrying (Finite 2) 1 3), Sleep 2,
      Request (Find ''alice'')]"
    unfolding b by (simp add: ev)
  show ?thesis unfolding res using f1 t by simp
qed

section \<open>Questions\<close>





lemma st_success_fields [simp]:
  "sheet (st_success n w) = sheet w" "question_sheet (st_success n w) = question_sheet w"
  "session (st_success n w) = session w" "wall_clock (st_success n w) = wall_clock w"
  "last_event (st_success n w) = Some (Success n)" "trace (st_success n w) = trace w @ [Success n]"
  by (simp_all add: st_success_def)

lemma trace_st_error [simp]: "trace (st_error n w) = trace w @ [Error n]"
  by (simp add: st_error_def)

lemma not_error_shown_success [simp]: "\<not> error_shown (st_success n w)"
  by (simp add: error_shown_def)



section \<open>Failures while writing an answer\<close>

lemma update_sheet_try_session:
  assumes t: "update_sheet_try u q a w = (res, w1)"
  shows "(\<forall>e. res = Inl e \<longrightarrow> session w1 = session w) \<and>
         (session w1 \<noteq> session w \<longrightarrow>
            (\<exists>row col v. find_cell u (sheet w) = PCell row col v \<and>
               cell_value (sheet w) row (q + 1) \<noteq> [] \<and>
               session w1 = pending_session row (q + 1) a (cell_value (sheet w) row (q + 1))))"
proof -
  from find_cell_cases[of u "sheet w"] show ?thesis
  proof
    assume new: "find_cell u (sheet w) = PNone"
    from update_sheet_try_new[OF t new] have "session w1 = session w" by blast
    then show ?thesis by simp
  next
    assume "\<exists>r c. find_cell u (sheet w) = PCell r c u"
    then obtain row col where found: "find_cell u (sheet w) = PCell row col u" by blast
    note F = update_sheet_try_found[OF t found]
    show ?thesis
    proof (cases res)
      case (Inl e)
      from F(2)[OF Inl] Inl show ?thesis by simp
    next
      case (Inr x)
      then have r: "res = Inr ()" by simp
      show ?thesis
      proof (cases "cell_value (sheet w) row (q + 1) = []")
        case True
        from F(4)[OF r True] r show ?thesis by simp
      next
        case False
        from F(3)[OF r False] have
          "session w1 = pending_session row (q + 1) a (cell_value (sheet w) row (q + 1))"
          by simp
        with found False r show ?thesis by blast
      qed
    qed
  qed
qed

text \<open>
  Claim C6. \<^verbatim>\<open>update_sheet\<close> handles every exception of its body: whatever error
  the body ends with (an \<^verbatim>\<open>APIError\<close> left after the last attempt, or any other
  exception), \<^verbatim>\<open>update_sheet\<close> itself ends normally in the state the body left, with
  the error message added as the last event, and the session state is the one before the
  call. The session state changes only when the user was found, the cell that was read
  is not empty and no error was shown, and then it is exactly the pending overwrite built
  from the value read.
\<close>

theorem update_sheet_reports_failure:
  "let w' = update_sheet username question_num answer w
   in (\<forall>e w1. update_sheet_try username question_num answer w = (Inl e, w1) \<longrightarrow>
         w' = st_error (SendFailed e) w1 \<and>
         last_event w' = Some (Error (SendFailed e)) \<and>
         session w' = session w) \<and>
      (session w' \<noteq> session w \<longrightarrow>
         \<not> error_shown w' \<and>
         (\<exists>row col v. find_cell username (sheet w) = PCell row col v \<and>
            cell_value (sheet w) row (question_num + 1) \<noteq> [] \<and>
            session w' =
              pending_session row (question_num + 1) answer
                (cell_value (sheet w) row (question_num + 1))))"
proof -
  let ?w' = "update_sheet username question_num answer w"
  obtain res w1 where t: "update_sheet_try username question_num answer w = (res, w1)"
    by (cases "update_sheet_try username question_num answer w")
  note S = update_sheet_try_session[OF t]
  have first: "\<forall>e w2. update_sheet_try username question_num answer w = (Inl e, w2) \<longrightarrow>
         ?w' = st_error (SendFailed e) w2 \<and>
         last_event ?w' = Some (Error (SendFailed e)) \<and>
         session ?w' = session w"
  proof (intro allI impI)
    fix e w2 assume a: "update_sheet_try username question_num answer w = (Inl e, w2)"
    with t have "res = Inl e" "w2 = w1" by simp_all
    with S have "session w2 = session w" by simp
    with update_sheet_Inl[OF a] show "?w' = st_error (SendFailed e) w2 \<and>
         last_event ?w' = Some (Error (SendFailed e)) \<and> session ?w' = session w"
      by simp
  qed
  have second: "session ?w' \<noteq> session w \<longrightarrow>
         \<not> error_shown ?w' \<and>
         (\<exists>row col v. find_cell username (sheet w) = PCell row col v \<and>
            cell_value (sheet w) row (question_num + 1) \<noteq> [] \<and>
            session ?w' =
              pending_session row (question_num + 1) answer
                (cell_value (sheet w) row (question_num + 1)))"
  proof
    assume ch: "session ?w' \<noteq> session w"
    show "\<not> error_shown ?w' \<and>
         (\<exists>row col v. find_cell username (sheet w) = PCell row col v \<and>
            cell_value (sheet w) row (question_num + 1) \<noteq> [] \<and>
            session ?w' =
              pending_session row (question_num + 1) answer
                (cell_value (sheet w) row (question_num + 1)))"
    proof (cases res)
      case (Inl e)
      with t have "?w' = st_error (SendFailed e) w1" by (simp add: update_sheet_Inl)
      with S Inl ch show ?thesis by simp
    next
      case (Inr x)
      with t have w: "?w' = w1" by (simp add: update_sheet_Inr)
      with ch have ch1: "session w1 \<noteq> session w" by simp
      with S obtain row col v where f: "find_cell username (sheet w) = PCell row col v"
        and c: "cell_value (sheet w) row (question_num + 1) \<noteq> []"
        and s: "session w1 = pending_session row (question_num + 1) answer
                (cell_value (sheet w) row (question_num + 1))" by blast
      from Inr have r: "res = Inr ()" by simp
      from update_sheet_try_found(3)[OF t f r c] have "\<not> error_shown w1"
        by (simp add: error_shown_def)
      with f c s w show ?thesis by blast
    qed
  qed
  show ?thesis unfolding Let_def by (rule conjI[OF first second])
qed

lemma refusing_find_alice:
  "fst (with_retry (find_user ''alice'') 3 2 refusing_world) = Inl quota_error"
proof -
  let ?f = "find_user ''alice''"
  let ?q = "''quota exceeded''"
  let ?a1 = "?f refusing_world"
  let ?a2 = "?f (backoff 3 2 0 (snd ?a1))"
  let ?a3 = "?f (backoff 3 2 1 (snd ?a2))"
  have f1: "fst ?a1 = Inl (APIError ?q)" by (simp add: world_eval)
  have f2: "fst ?a2 = Inl (APIError ?q)" by (simp add: world_eval)
  have f3: "fst ?a3 = Inl (APIError ?q)" by (simp add: world_eval)
  have h1: "?f refusing_world = (Inl (APIError ?q), snd ?a1)"
    using f1 by (simp only: prod_eq_iff fst_conv snd_conv simp_thms)
  have h2: "?f (backoff 3 2 0 (snd ?a1)) = (Inl (APIError ?q), snd ?a2)"
    using f2 by (simp only: prod_eq_iff fst_conv snd_conv simp_thms)
  have h3: "?f (backoff 3 2 1 (snd ?a2)) = (Inl (APIError ?q), snd ?a3)"
    using f3 by (simp only: prod_eq_iff fst_conv snd_conv simp_thms)
  have "with_retry ?f 3 2 refusing_world = (Inl (APIError ?q), snd ?a3)"
    using h1 h2 h3 by (rule with_retry_three_failures)
  then show ?thesis by (simp add: quota_error_def)
qed

lemma refusing_update_alice:
  "fst (update_sheet_try ''alice'' 1 ''x'' refusing_world) = Inl quota_error"
proof -
  obtain w1 where "with_retry (find_user ''alice'') 3 2 refusing_world = (Inl quota_error, w1)"
    using refusing_find_alice by (cases "with_retry (find_user ''alice'') 3 2 refusing_world") simp
  then show ?thesis by (simp add: update_sheet_try_def)
qed

lemma example_pending_alice:
  "session (update_sheet ''alice'' 1 ''x'' example_world) = pending_session 2 (1 + 1) ''x'' ''hello''"
proof -
  have nf: "faults example_world = []" by (simp add: example_world_def)
  from update_sheet_try_no_fault[OF nf, of "''alice''" 1 "''x''"]
  obtain w1 where t: "update_sheet_try ''alice'' 1 ''x'' example_world = (Inr (), w1)" by blast
  have e: "cell_value (sheet example_world) 2 (1 + 1) = ''hello''"
    by (simp add: example_world_def cell_value_def)
  then have ne: "cell_value (sheet example_world) 2 (1 + 1) \<noteq> []" by simp
  from update_sheet_try_found(3)[OF t example_find_alice refl ne] e
  have "session w1 = pending_session 2 (1 + 1) ''x'' ''hello''" by simp
  with update_sheet_Inr[OF t] show ?thesis by simp
qed

theorem update_sheet_reports_failure_witness:
  "fst (update_sheet_try ''alice'' 1 ''x'' refusing_world) = Inl quota_error \<and>
   last_event (update_sheet ''alice'' 1 ''x'' refusing_world) =
     Some (Error (SendFailed quota_error)) \<and>
   session (update_sheet ''alice'' 1 ''x'' refusing_world) = session refusing_world \<and>
   session (update_sheet ''alice'' 1 ''x'' example_world) \<noteq> session example_world \<and>
   \<not> error_shown (update_sheet ''alice'' 1 ''x'' example_world)"
proof -
  let ?t = "update_sheet_try ''alice'' 1 ''x'' refusing_world"
  have a: "?t = (Inl quota_error, snd ?t)"
    using refusing_update_alice by (simp add: prod_eq_iff)
  have ch: "session (update_sheet ''alice'' 1 ''x'' example_world) \<noteq> session example_world"
    unfolding example_pending_alice
    by (simp add: example_world_def initial_session_def pending_session_def)
  note T1 = update_sheet_reports_failure[of "''alice''" 1 "''x''" refusing_world, unfolded Let_def]
  note T2 = update_sheet_reports_failure[of "''alice''" 1 "''x''" example_world, unfolded Let_def]
  from T1 a
  have 1: "last_event (update_sheet ''alice'' 1 ''x'' refusing_world) =
     Some (Error (SendFailed quota_error)) \<and>
     session (update_sheet ''alice'' 1 ''x'' refusing_world) = session refusing_world"
    by blast
  from T2 ch
  have 2: "\<not> error_shown (update_sheet ''alice'' 1 ''x'' example_world)"
    by blast
  from refusing_update_alice 1 ch 2 show ?thesis by blast
qed

section \<open>Confirming an overwrite\<close>

lemma overwrite_cell_pending:
  "session w = pending_session r c a ex \<Longrightarrow> overwrite_cell w = sheet_update_cell r c a w"
  by (simp add: overwrite_cell_def pending_session_def)

lemma with_retry_overwrite_cell:
  assumes run: "with_retry overwrite_cell 3 2 w = (res, w1)"
      and pend: "session w = pending_session r c a ex"
  shows "rest w1 = rest w"
    and "\<And>e. res = Inl e \<Longrightarrow> sheet w1 = sheet w"
    and "\<And>v. res = Inr v \<Longrightarrow> sheet w1 = set_cell (sheet w) r c a \<and> 1 \<le> r \<and> 1 \<le> c"
proof -
  have core_session: "session w' = session w" if "core w' = core w" for w' w
    using that by (simp add: core_def)
  have fail: "core w' = core w" if "overwrite_cell w = (Inl e, w')" for w e w'
  proof (cases "ss_row_number (session w)")
    case (PInt r')
    show ?thesis
    proof (cases "ss_col_number (session w)")
      case c: (PInt c')
      show ?thesis
      proof (cases "ss_answer (session w)")
        case (PStr a')
        with PInt c that have u: "sheet_update_cell r' c' a' w = (Inl e, w')"
          by (simp add: overwrite_cell_def)
        from sheet_update_cell_rest[OF u] sheet_update_cell_Inl[OF u] show ?thesis
          by (simp add: core_rest)
      qed (use that PInt c in \<open>auto simp: overwrite_cell_def\<close>)
    qed (use that PInt in \<open>auto simp: overwrite_cell_def\<close>)
  qed (use that in \<open>auto simp: overwrite_cell_def\<close>)
  have *: "case res of Inl e \<Rightarrow> core w1 = core w
           | Inr v \<Rightarrow> (\<exists>w0. core w0 = core w \<and> overwrite_cell w0 = (Inr v, w1))"
    by (rule with_retry_same[OF run]) (auto dest: fail)
  have inr: "rest w1 = rest w \<and> sheet w1 = set_cell (sheet w) r c a \<and> 1 \<le> r \<and> 1 \<le> c"
    if "res = Inr v" for v
  proof -
    from * that obtain w0 where w0: "core w0 = core w" "overwrite_cell w0 = (Inr v, w1)" by auto
    from w0(1) pend have "session w0 = pending_session r c a ex" by (simp add: core_def)
    with w0(2) have u: "sheet_update_cell r c a w0 = (Inr v, w1)"
      by (simp add: overwrite_cell_pending)
    from w0(1) have "sheet w0 = sheet w" "rest w0 = rest w" by (simp_all add: core_rest)
    with sheet_update_cell_rest[OF u] sheet_update_cell_Inr[OF u] show ?thesis by simp
  qed
  show "rest w1 = rest w"
  proof (cases res)
    case (Inl e)
    with * show ?thesis by (simp add: core_rest)
  next
    case (Inr v)
    from inr[OF this] show ?thesis by simp
  qed
  show "sheet w1 = sheet w" if "res = Inl e" for e
    using * that by (simp add: core_rest)
  show "sheet w1 = set_cell (sheet w) r c a \<and> 1 \<le> r \<and> 1 \<le> c" if "res = Inr v" for v
    using inr[OF that] by simp
qed

lemma click_yes_outcome:
  assumes pend: "session w = pending_session r c a ex"
  shows "question_sheet (click_yes w) = question_sheet w \<and>
         (sheet (click_yes w) = set_cell (sheet w) r c a \<and> 1 \<le> r \<and> 1 \<le> c \<and>
            session (click_yes w) = (session w)\<lparr>ss_confirm_overwrite := False\<rparr> \<and>
            last_event (click_yes w) = Some Rerun
          \<or> sheet (click_yes w) = sheet w \<and> session (click_yes w) = session w \<and>
            error_shown (click_yes w))"
proof -
  obtain res w1 where run: "with_retry overwrite_cell 3 2 w = (res, w1)"
    by (cases "with_retry overwrite_cell 3 2 w")
  note O = with_retry_overwrite_cell[OF run pend]
  have r1: "question_sheet w1 = question_sheet w" "session w1 = session w"
    using O(1) by (simp_all add: rest_def)
  show ?thesis
  proof (cases res)
    case (Inl e)
    with run have "click_yes w = st_error (OverwriteFailed e) w1" by (simp add: click_yes_def)
    with O(2)[OF Inl] r1 show ?thesis by simp
  next
    case (Inr v)
    with run have "click_yes w =
        st_rerun ((time_sleep 2 (st_success Overwritten w1))
          \<lparr>session := (session (time_sleep 2 (st_success Overwritten w1)))
                        \<lparr>ss_confirm_overwrite := False\<rparr>\<rparr>)"
      by (simp add: click_yes_def Let_def)
    with O(3)[OF Inr] r1 show ?thesis
      by (simp add: st_rerun_def time_sleep_def)
  qed
qed

lemma click_yes_no_fault:
  assumes pend: "session w = pending_session r c a ex" and nf: "faults w = []"
      and r: "1 \<le> r" and c: "1 \<le> c"
  shows "\<not> error_shown (click_yes w)"
proof -
  let ?w1 = "(emit (Request (UpdateCell r c a)) w)\<lparr>sheet := set_cell (sheet w) r c a\<rparr>"
  have "overwrite_cell w = (Inr PNone, ?w1)"
    using pend nf r c by (simp add: overwrite_cell_pending sheet_update_cell_ok)
  then have "with_retry overwrite_cell 3 2 w = (Inr PNone, ?w1)" by (rule with_retry_first_try)
  then show ?thesis
    by (simp add: click_yes_def Let_def st_rerun_def error_shown_def)
qed

lemma refused_overwrite:
  "fst (with_retry overwrite_cell 3 2 awaiting_refused_world) = Inl quota_error"
proof -
  let ?f = "overwrite_cell"
  let ?q = "''quota exceeded''"
  let ?a1 = "?f awaiting_refused_world"
  let ?a2 = "?f (backoff 3 2 0 (snd ?a1))"
  let ?a3 = "?f (backoff 3 2 1 (snd ?a2))"
  note ev = world_eval awaiting_refused_world_def overwrite_cell_def sheet_update_cell_def
    pending_session_def
  have f1: "fst ?a1 = Inl (APIError ?q)" by (simp add: ev)
  have f2: "fst ?a2 = Inl (APIError ?q)" by (simp add: ev)
  have f3: "fst ?a3 = Inl (APIError ?q)" by (simp add: ev)
  have h1: "?f awaiting_refused_world = (Inl (APIError ?q), snd ?a1)"
    using f1 by (simp only: prod_eq_iff fst_conv snd_conv simp_thms)
  have h2: "?f (backoff 3 2 0 (snd ?a1)) = (Inl (APIError ?q), snd ?a2)"
    using f2 by (simp only: prod_eq_iff fst_conv snd_conv simp_thms)
  have h3: "?f (backoff 3 2 1 (snd ?a2)) = (Inl (APIError ?q), snd ?a3)"
    using f3 by (simp only: prod_eq_iff fst_conv snd_conv simp_thms)
  have "with_retry ?f 3 2 awaiting_refused_world = (Inl (APIError ?q), snd ?a3)"
    using h1 h2 h3 by (rule with_retry_three_failures)
  then show ?thesis by (simp add: quota_error_def)
qed

lemma awaiting_refused_session:
  "session awaiting_refused_world = pending_session 2 2 ''world'' ''hello''"
  by (simp add: awaiting_refused_world_def)

text \<open>
  Claim C5 as the spec states it fails: when the service refuses the overwrite three times
  the handler of "yes" shows the error and leaves \<^verbatim>\<open>confirm_overwrite\<close> set, so the
  panel stays.
\<close>

theorem click_yes_failure_keeps_pending:
  "ss_confirm_overwrite (session awaiting_refused_world) \<and>
   error_shown (click_yes awaiting_refused_world) \<and>
   ss_confirm_overwrite (session (click_yes awaiting_refused_world))"
proof -
  obtain w1 where run: "with_retry overwrite_cell 3 2 awaiting_refused_world = (Inl quota_error, w1)"
    using refused_overwrite by (cases "with_retry overwrite_cell 3 2 awaiting_refused_world") simp
  from with_retry_overwrite_cell(1)[OF run awaiting_refused_session]
  have "session w1 = session awaiting_refused_world" by (simp add: rest_def)
  moreover have "click_yes awaiting_refused_world = st_error (OverwriteFailed quota_error) w1"
    using run by (simp add: click_yes_def)
  ultimately show ?thesis by (simp add: awaiting_refused_session pending_session_def)
qed

text \<open>
  Claim C5, amended. With a pending overwrite in the session state, the handler of "yes"
  has two outcomes. Either the write succeeded: the cell is overwritten,
  \<^verbatim>\<open>confirm_overwrite\<close> is cleared and the script is rerun. Or the write failed: the
  error is shown, the sheet and the whole session state are as before, so
  \<^verbatim>\<open>confirm_overwrite\<close> is still set and the panel is shown again. Without scheduled
  faults and with a row and column of at least 1 the write succeeds.
\<close>

theorem click_yes_clears_pending_on_success:
  assumes "session w = pending_session r c a ex"
  shows "let w' = click_yes w
         in (\<not> error_shown w' \<and> \<not> ss_confirm_overwrite (session w') \<and>
               last_event w' = Some Rerun \<and> sheet w' = set_cell (sheet w) r c a
             \<or> error_shown w' \<and> session w' = session w \<and>
               ss_confirm_overwrite (session w') \<and> sheet w' = sheet w) \<and>
            (faults w = [] \<and> 1 \<le> r \<and> 1 \<le> c \<longrightarrow> \<not> error_shown w')"
proof -
  let ?w' = "click_yes w"
  have pc: "ss_confirm_overwrite (session w)" using assms by (simp add: pending_session_def)
  from click_yes_outcome[OF assms]
  have "sheet ?w' = set_cell (sheet w) r c a \<and> 1 \<le> r \<and> 1 \<le> c \<and>
            session ?w' = (session w)\<lparr>ss_confirm_overwrite := False\<rparr> \<and>
            last_event ?w' = Some Rerun
          \<or> sheet ?w' = sheet w \<and> session ?w' = session w \<and> error_shown ?w'"
    by (rule conjunct2)
  then have a: "\<not> error_shown ?w' \<and> \<not> ss_confirm_overwrite (session ?w') \<and>
               last_event ?w' = Some Rerun \<and> sheet ?w' = set_cell (sheet w) r c a
             \<or> error_shown ?w' \<and> session ?w' = session w \<and>
               ss_confirm_overwrite (session ?w') \<and> sheet ?w' = sheet w"
  proof
    assume s: "sheet ?w' = set_cell (sheet w) r c a \<and> 1 \<le> r \<and> 1 \<le> c \<and>
            session ?w' = (session w)\<lparr>ss_confirm_overwrite := False\<rparr> \<and>
            last_event ?w' = Some Rerun"
    then have "\<not> error_shown ?w'" by (simp add: error_shown_def)
    with s show ?thesis by simp
  next
    assume "sheet ?w' = sheet w \<and> session ?w' = session w \<and> error_shown ?w'"
    with pc show ?thesis by simp
  qed
  have b: "faults w = [] \<and> 1 \<le> r \<and> 1 \<le> c \<longrightarrow> \<not> error_shown ?w'"
    using click_yes_no_fault[OF assms] by blast
  show ?thesis unfolding Let_def by (rule conjI[OF a b])
qed

theorem click_yes_clears_pending_on_success_witness:
  "session awaiting_world = pending_session 2 2 ''world'' ''hello'' \<and>
   faults awaiting_world = [] \<and>
   \<not> ss_confirm_overwrite (session (click_yes awaiting_world)) \<and>
   sheet (click_yes awaiting_world) =
     [[''name'', ''q1'', ''q2''], [''alice'', ''world'', []]]"
proof -
  have p: "session awaiting_world = pending_session 2 2 ''world'' ''hello''"
    by (simp add: awaiting_world_def)
  have nf: "faults awaiting_world = []" by (simp add: awaiting_world_def example_world_def)
  have sc: "set_cell (sheet awaiting_world) 2 2 ''world'' =
      [[''name'', ''q1'', ''q2''], [''alice'', ''world'', []]]"
    by (simp add: awaiting_world_def example_world_def set_cell_def pad_def eval_nat_numeral)
  note T = click_yes_clears_pending_on_success[OF p, unfolded Let_def]
  from T nf have ne: "\<not> error_shown (click_yes awaiting_world)" by simp
  with T have "\<not> ss_confirm_overwrite (session (click_yes awaiting_world)) \<and>
      sheet (click_yes awaiting_world) = set_cell (sheet awaiting_world) 2 2 ''world''"
    by blast
  with p nf sc show ?thesis by simp
qed

section \<open>While an overwrite is pending\<close>













section \<open>A retried append\<close>

text \<open>
  Claim C10 fails on the code. \<^verbatim>\<open>with_retry\<close> wraps the whole of \<^verbatim>\<open>_append_row\<close>, so
  when the row has been appended and the \<^verbatim>\<open>find\<close> after it raises an \<^verbatim>\<open>APIError\<close>,
  the retry appends the row a second time. Here a new user \<open>bob\<close> sends one answer; the
  call reports success and leaves two rows for \<open>bob\<close>.
\<close>

theorem update_sheet_retry_appends_twice:
  "find_cell ''bob'' (sheet lost_find_world) = PNone \<and>
   \<not> error_shown (update_sheet ''bob'' 1 ''hi'' lost_find_world) \<and>
   sheet (update_sheet ''bob'' 1 ''hi'' lost_find_world) =
     [[''name'', ''q1'', ''q2''], [''alice'', ''hello'', []],
      [''bob'', ''hi'', []], [''bob'', [], []]]"
proof -
  note ev = world_eval lost_find_world_def append_row_def sheet_row_values_def
    sheet_append_row_def row_values_def trim_row_def update_new_cell_def sheet_update_cell_def
    set_cell_def pad_def Let_def
  let ?W = "lost_find_world"
  let ?f0 = "find_user ''bob'' ?W"
  have a0: "fst ?f0 = Inr PNone" by (simp add: ev)
  then have "?f0 = (Inr PNone, snd ?f0)" by (simp only: prod_eq_iff fst_conv snd_conv simp_thms)
  then have s0: "with_retry (find_user ''bob'') 3 2 ?W = (Inr PNone, snd ?f0)"
    by (rule with_retry_first_try)
  let ?g1 = "append_row ''bob'' (snd ?f0)"
  let ?g2 = "append_row ''bob'' (backoff 3 2 0 (snd ?g1))"
  have a1: "fst ?g1 = Inl (APIError ''quota exceeded'')" by (simp add: ev)
  have a2: "fst ?g2 = Inr (PCell 3 1 ''bob'')" by (simp add: ev)
  have h1: "?g1 = (Inl (APIError ''quota exceeded''), snd ?g1)"
    using a1 by (simp only: prod_eq_iff fst_conv snd_conv simp_thms)
  have h2: "?g2 = (Inr (PCell 3 1 ''bob''), snd ?g2)"
    using a2 by (simp only: prod_eq_iff fst_conv snd_conv simp_thms)
  have s1: "with_retry (append_row ''bob'') 3 2 (snd ?f0) = (Inr (PCell 3 1 ''bob''), snd ?g2)"
    using h1 h2 by (rule with_retry_second_try)
  let ?u = "update_new_cell 3 1 ''hi'' (snd ?g2)"
  have a3: "fst ?u = Inr PNone" by (simp add: ev)
  then have "?u = (Inr PNone, snd ?u)" by (simp only: prod_eq_iff fst_conv snd_conv simp_thms)
  then have s2: "with_retry (update_new_cell 3 1 ''hi'') 3 2 (snd ?g2) = (Inr PNone, snd ?u)"
    by (rule with_retry_first_try)
  have t: "update_sheet_try ''bob'' 1 ''hi'' ?W = (Inr (), st_success Sent (snd ?u))"
    by (simp only: update_sheet_try_def s0 s1 s2 prod.case sum.case truthy.simps
          cell_row.simps if_False)
  have w: "update_sheet ''bob'' 1 ''hi'' ?W = st_success Sent (snd ?u)"
    using t by (rule update_sheet_Inr)
  have sh: "sheet (snd ?u) =
     [[''name'', ''q1'', ''q2''], [''alice'', ''hello'', []],
      [''bob'', ''hi'', []], [''bob'', [], []]]"
    by (simp add: ev eval_nat_numeral)
  have nf: "find_cell ''bob'' (sheet lost_find_world) = PNone" by (simp add: ev)
  show ?thesis unfolding w using sh nf by simp
qed

section \<open>Properties of the retry wrapper\<close>

text \<open>
  Claim C7. An exception that is not an \<^verbatim>\<open>APIError\<close> leaves \<^verbatim>\<open>with_retry\<close> from the
  attempt that raised it: the result is that exception and the state is the one the
  operation left, so no warning was shown, nothing was slept and the operation was not
  called again.
\<close>

theorem with_retry_other_error_propagates:
  assumes "attempt < max_retries" and "func w = (Inl (OtherError e), w1)"
  shows "retry_loop func max_retries delay_base attempt w = (Inl (OtherError e), w1)"
  using assms by (simp add: retry_loop.simps)

theorem with_retry_other_error_propagates_witness:
  "(0::nat) < 3 \<and>
   broken_connection example_world = (Inl (OtherError ''ConnectionError''), example_world) \<and>
   retry_loop broken_connection 3 2 0 example_world =
     (Inl (OtherError ''ConnectionError''), example_world)"
  using with_retry_other_error_propagates
    [of 0 3 broken_connection example_world "''ConnectionError''" example_world 2]
  by (simp add: broken_connection_def)

end
